theory Spec2Isabelle
  imports Main
begin

section \<open>Data model\<close>

text \<open>
  The game engine is the Python class \<open>Blokus\<close> of \<open>blokus.py\<close>. Its collaborators
  \<open>piece.py\<close>, \<open>shape_definitions.py\<close> and \<open>base.py\<close> are not among the sources, so
  what the engine reads from them is data of the model: a piece carries the lists its
  methods \<open>squares()\<close>, \<open>cardinal_neighbors()\<close> and \<open>intercardinal_neighbors()\<close> return,
  and the catalog of shapes is the field \<open>shapes\<close> of the game state, as it is the
  attribute \<open>_shapes\<close> of the class.
\<close>

type_synonym point = "int \<times> int"

text \<open>The members of the enum \<open>ShapeKind\<close>, as \<open>tui.py\<close> (lines 40-48) names them.\<close>

datatype ShapeKind =
  ONE | TWO | THREE | C | FOUR | SEVEN | S | LETTER_O | A | F | FIVE
  | L | N | P | T | U | V | W | X | Y | Z

text \<open>
  A raised exception is a value. \<open>ValueError\<close> keeps the message of the source; the
  others are the exceptions Python raises by itself on a missing key, an index out of
  range, a modulus of zero and a missing attribute.
\<close>

datatype error =
  ValueError string | KeyError | IndexError | ZeroDivisionError | AttributeError

record Shape =
  kind :: ShapeKind
  squares :: "point list"

text \<open>
  \<open>anchor\<close> is the attribute \<open>piece.anchor\<close> (\<open>None\<close> while the piece is unanchored);
  \<open>piece_squares\<close>, \<open>cardinal_neighbors\<close> and \<open>intercardinal_neighbors\<close> are what the
  three methods of the piece return once it is anchored. The engine calls them only
  after it has checked the anchor.
\<close>

record Piece =
  shape :: Shape
  anchor :: "point option"
  piece_squares :: "point list"
  cardinal_neighbors :: "point list"
  intercardinal_neighbors :: "point list"

type_synonym cell = "(int \<times> ShapeKind) option"

type_synonym Grid = "cell list list"

text \<open>
  The attributes of a \<open>Blokus\<close> object. \<open>shapes\<close> is a dictionary whose keys are read in
  insertion order (an association list); \<open>shapes_played\<close> is a dictionary from player
  id to the list of kinds played.
\<close>

record Blokus =
  num_players :: int
  start_positions :: "point set"
  size_board :: int
  curr_player :: int
  shapes :: "(ShapeKind \<times> Shape) list"
  shapes_played :: "int \<rightharpoonup> ShapeKind list"
  grid :: Grid
  retired :: "int set"

section \<open>Reading the state\<close>

text \<open>
  \<open>remaining_shapes\<close> (lines 155-167): the comprehension looks the player up once for
  every key of the catalog, so a missing player raises \<open>KeyError\<close> unless the catalog
  is empty.
\<close>

definition remaining_shapes :: "Blokus \<Rightarrow> int \<Rightarrow> error + ShapeKind list" where
  "remaining_shapes s player =
     (if shapes s = [] then Inr []
      else case shapes_played s player of
             None \<Rightarrow> Inl KeyError
           | Some played \<Rightarrow> Inr (filter (\<lambda>k. k \<notin> set played) (map fst (shapes s))))"

text \<open>
  The property \<open>game_over\<close> (lines 108-126). The loop repoints \<open>_curr_player\<close> at every
  player it visits; the branch that returns \<open>False\<close> writes the saved cursor back, the
  exit of the loop that returns \<open>True\<close> does not. The result pairs the value (or the
  exception) with the state the call leaves behind.
\<close>

fun game_over_loop :: "Blokus \<Rightarrow> int \<Rightarrow> int list \<Rightarrow> (error + bool) \<times> Blokus" where
  "game_over_loop s current_player [] = (Inr True, s)"
| "game_over_loop s current_player (player # players) =
     (let s1 = s\<lparr>curr_player := player\<rparr> in
      if player \<in> retired s1 then game_over_loop s1 current_player players
      else case remaining_shapes s1 player of
             Inl e \<Rightarrow> (Inl e, s1)
           | Inr rs \<Rightarrow>
               if length rs \<le> 0 then game_over_loop s1 current_player players
               else (Inr False, s1\<lparr>curr_player := current_player\<rparr>))"

definition game_over :: "Blokus \<Rightarrow> (error + bool) \<times> Blokus" where
  "game_over s = game_over_loop s (curr_player s) [1 .. num_players s]"

section \<open>Turn progression\<close>

text \<open>
  \<open>progress_turn\<close> (lines 143-153). The loop condition reads
  \<open>(retired or exhausted) and not game_over\<close>: Python evaluates \<open>game_over\<close> only when
  the cursor is on a retired or exhausted player, and the evaluation may move the
  cursor (see \<open>game_over_loop\<close>). \<open>%\<close> raises on a modulus of zero; for a positive
  modulus it is \<open>mod\<close> on \<open>int\<close>.
\<close>

definition not_game_over :: "Blokus \<Rightarrow> (error + bool) \<times> Blokus" where
  "not_game_over s =
     (case game_over s of (Inl e, s1) \<Rightarrow> (Inl e, s1) | (Inr b, s1) \<Rightarrow> (Inr (\<not> b), s1))"

definition turn_blocked :: "Blokus \<Rightarrow> (error + bool) \<times> Blokus" where
  "turn_blocked s =
     (if curr_player s \<in> retired s then not_game_over s
      else case remaining_shapes s (curr_player s) of
             Inl e \<Rightarrow> (Inl e, s)
           | Inr rs \<Rightarrow> if length rs \<le> 0 then not_game_over s else (Inr False, s))"

definition next_player :: "Blokus \<Rightarrow> error + Blokus" where
  "next_player s =
     (if num_players s = 0 then Inl ZeroDivisionError
      else Inr (s\<lparr>curr_player := curr_player s mod num_players s + 1\<rparr>))"

text \<open>
  For the termination of the loop: a player is playable when the loop condition lets the
  cursor rest on it, and \<open>advance\<close> is one step of the cursor.
\<close>

definition playable :: "Blokus \<Rightarrow> int \<Rightarrow> bool" where
  "playable s p \<longleftrightarrow>
     p \<notin> retired s \<and> (case remaining_shapes s p of Inl e \<Rightarrow> False | Inr rs \<Rightarrow> rs \<noteq> [])"

lemma remaining_shapes_cursor [simp]:
  "remaining_shapes (s\<lparr>curr_player := c\<rparr>) p = remaining_shapes s p"
  by (simp add: remaining_shapes_def split: option.splits)

lemma playable_cursor [simp]: "playable (s\<lparr>curr_player := c\<rparr>) p = playable s p"
  by (simp add: playable_def)

lemma game_over_loop_False:
  "game_over_loop s cur ps = (Inr False, s') \<Longrightarrow>
     s' = s\<lparr>curr_player := cur\<rparr> \<and> (\<exists>p \<in> set ps. playable s p)"
proof (induction ps arbitrary: s)
  case Nil
  then show ?case by simp
next
  case (Cons p ps)
  show ?case
  proof (cases "p \<in> retired s")
    case True
    with Cons.prems have "game_over_loop (s\<lparr>curr_player := p\<rparr>) cur ps = (Inr False, s')"
      by simp
    from Cons.IH [OF this] show ?thesis by simp
  next
    case False
    show ?thesis
    proof (cases "remaining_shapes s p")
      case (Inl e)
      with False Cons.prems show ?thesis by simp
    next
      case (Inr rs)
      show ?thesis
      proof (cases "rs = []")
        case True
        with False Inr Cons.prems
        have "game_over_loop (s\<lparr>curr_player := p\<rparr>) cur ps = (Inr False, s')"
          by simp
        from Cons.IH [OF this] show ?thesis by simp
      next
        case False
        with \<open>p \<notin> retired s\<close> Inr Cons.prems show ?thesis
          by (simp add: playable_def)
      qed
    qed
  qed
qed

lemma turn_blocked_True:
  assumes "turn_blocked s = (Inr True, s')"
  shows "s' = s" and "\<not> playable s (curr_player s)"
    and "\<exists>p. 1 \<le> p \<and> p \<le> num_players s \<and> playable s p"
proof -
  from assms have g: "game_over s = (Inr False, s')"
    by (auto simp: turn_blocked_def not_game_over_def split: if_splits sum.splits prod.splits)
  from game_over_loop_False [OF g [unfolded game_over_def]]
  show "s' = s" and "\<exists>p. 1 \<le> p \<and> p \<le> num_players s \<and> playable s p"
    by auto
  from assms show "\<not> playable s (curr_player s)"
    by (auto simp: turn_blocked_def playable_def split: if_splits sum.splits)
qed

definition advance :: "Blokus \<Rightarrow> int \<Rightarrow> int" where
  "advance s c = c mod num_players s + 1"

lemma advance_funpow:
  assumes "0 < num_players s"
  shows "(advance s ^^ Suc k) c = (c + int k) mod num_players s + 1"
proof (induction k)
  case 0
  show ?case by (simp add: advance_def)
next
  case (Suc k)
  have "(advance s ^^ Suc (Suc k)) c = advance s ((advance s ^^ Suc k) c)" by simp
  also have "\<dots> = ((c + int k) mod num_players s + 1) mod num_players s + 1"
    by (simp only: Suc.IH advance_def)
  also have "\<dots> = (c + int (Suc k)) mod num_players s + 1"
    by (simp add: mod_simps algebra_simps)
  finally show ?case .
qed

lemma advance_reaches:
  assumes "1 \<le> p" "p \<le> num_players s"
  shows "\<exists>k. (advance s ^^ k) c = p"
proof -
  let ?n = "num_players s"
  have n: "0 < ?n" using assms by simp
  define k where "k = nat ((p - 1 - c) mod ?n)"
  have "(c + int k) mod ?n = (c + (p - 1 - c) mod ?n) mod ?n"
    using n by (simp add: k_def)
  also have "\<dots> = (p - 1) mod ?n" by (simp add: mod_simps)
  also have "\<dots> = p - 1" using assms by simp
  finally have "(c + int k) mod ?n + 1 = p" by simp
  then have "(advance s ^^ Suc k) c = p"
    by (simp only: advance_funpow [OF n])
  then show ?thesis ..
qed

definition turns_to_wait :: "Blokus \<Rightarrow> nat" where
  "turns_to_wait s = (LEAST k. playable s ((advance s ^^ k) (curr_player s)))"

lemma progress_step_decreases:
  assumes tb: "turn_blocked s = (Inr True, s1)" and nx: "next_player s1 = Inr s2"
  shows "turns_to_wait s2 < turns_to_wait s"
proof -
  note t = turn_blocked_True [OF tb]
  from t(3) obtain p where p: "1 \<le> p" "p \<le> num_players s" "playable s p" by blast
  let ?P = "\<lambda>k. playable s ((advance s ^^ k) (curr_player s))"
  from advance_reaches [OF p(1,2)] p(3) have ex: "\<exists>k. ?P k" by metis
  have n0: "\<not> ?P 0" using t(2) by simp
  from ex obtain k where "?P k" ..
  from Least_Suc [of ?P, OF this n0]
  have least: "(LEAST k. ?P k) = Suc (LEAST k. ?P (Suc k))" .
  from nx t(1)
  have s2: "s2 = s\<lparr>curr_player := advance s (curr_player s)\<rparr>"
    by (auto simp: next_player_def advance_def split: if_splits)
  have adv: "advance s2 = advance s" by (simp add: s2 advance_def fun_eq_iff)
  have "turns_to_wait s2 = (LEAST k. ?P (Suc k))"
    unfolding turns_to_wait_def adv
    by (simp add: s2 funpow_swap1)
  with least show ?thesis
    by (simp add: turns_to_wait_def)
qed

text \<open>The \<open>while\<close> loop of \<open>progress_turn\<close>, from the test of its condition on.\<close>

function progress_loop :: "Blokus \<Rightarrow> (error + unit) \<times> Blokus" where
  "progress_loop s =
     (case turn_blocked s of
        (Inl e, s1) \<Rightarrow> (Inl e, s1)
      | (Inr False, s1) \<Rightarrow> (Inr (), s1)
      | (Inr True, s1) \<Rightarrow>
          (case next_player s1 of
             Inl e \<Rightarrow> (Inl e, s1)
           | Inr s2 \<Rightarrow> progress_loop s2))"
  by pat_completeness auto

termination
  by (relation "measure turns_to_wait") (auto intro: progress_step_decreases [OF sym])

declare progress_loop.simps [simp del]

definition progress_turn :: "Blokus \<Rightarrow> (error + unit) \<times> Blokus" where
  "progress_turn s =
     (case next_player s of
        Inl e \<Rightarrow> (Inl e, s)
      | Inr s1 \<Rightarrow> progress_loop s1)"

section \<open>Collisions and legality\<close>

text \<open>
  Indexing a Python list: an index from \<open>-len\<close> to \<open>-1\<close> counts from the end, anything
  outside \<open>-len .. len - 1\<close> raises \<open>IndexError\<close>.
\<close>

definition py_index :: "'a list \<Rightarrow> int \<Rightarrow> error + nat" where
  "py_index xs i =
     (if 0 \<le> i \<and> i < int (length xs) then Inr (nat i)
      else if - int (length xs) \<le> i \<and> i < 0 then Inr (nat (int (length xs) + i))
      else Inl IndexError)"

definition grid_get :: "Grid \<Rightarrow> int \<Rightarrow> int \<Rightarrow> error + cell" where
  "grid_get g x y =
     (case py_index g x of
        Inl e \<Rightarrow> Inl e
      | Inr i \<Rightarrow>
          (case py_index (g ! i) y of
             Inl e \<Rightarrow> Inl e
           | Inr j \<Rightarrow> Inr (g ! i ! j)))"

definition grid_set :: "Grid \<Rightarrow> int \<Rightarrow> int \<Rightarrow> cell \<Rightarrow> error + Grid" where
  "grid_set g x y v =
     (case py_index g x of
        Inl e \<Rightarrow> Inl e
      | Inr i \<Rightarrow>
          (case py_index (g ! i) y of
             Inl e \<Rightarrow> Inl e
           | Inr j \<Rightarrow> Inr (g[i := (g ! i)[j := v]])))"

text \<open>
  The two checks that open \<open>any_wall_collisions\<close>, \<open>any_collisions\<close>, \<open>legal_to_place\<close>
  and the non-retired branch of \<open>maybe_place\<close>.
\<close>

definition check_piece :: "Blokus \<Rightarrow> int \<Rightarrow> Piece \<Rightarrow> error + unit" where
  "check_piece s player p =
     (if anchor p = None then Inl (ValueError ''Piece anchor is not set.'')
      else case remaining_shapes s player of
             Inl e \<Rightarrow> Inl e
           | Inr rs \<Rightarrow>
               if kind (shape p) \<notin> set rs
               then Inl (ValueError ''Player does not have the specified piece.'')
               else Inr ())"

fun wall_loop :: "int \<Rightarrow> point list \<Rightarrow> bool" where
  "wall_loop sz [] = False"
| "wall_loop sz ((x, y) # sqs) =
     (if x < 0 \<or> x \<ge> sz \<or> y < 0 \<or> y \<ge> sz then True else wall_loop sz sqs)"

definition any_wall_collisions :: "Blokus \<Rightarrow> Piece \<Rightarrow> error + bool" where
  "any_wall_collisions s p =
     (case check_piece s (curr_player s) p of
        Inl e \<Rightarrow> Inl e
      | Inr _ \<Rightarrow> Inr (wall_loop (size_board s) (piece_squares p)))"

fun occupied_loop :: "Grid \<Rightarrow> point list \<Rightarrow> error + bool" where
  "occupied_loop g [] = Inr False"
| "occupied_loop g ((x, y) # sqs) =
     (case grid_get g x y of
        Inl e \<Rightarrow> Inl e
      | Inr c \<Rightarrow> if c \<noteq> None then Inr True else occupied_loop g sqs)"

definition any_collisions :: "Blokus \<Rightarrow> Piece \<Rightarrow> error + bool" where
  "any_collisions s p =
     (case check_piece s (curr_player s) p of
        Inl e \<Rightarrow> Inl e
      | Inr _ \<Rightarrow>
          (case any_wall_collisions s p of
             Inl e \<Rightarrow> Inl e
           | Inr True \<Rightarrow> Inr True
           | Inr False \<Rightarrow> occupied_loop (grid s) (piece_squares p)))"

text \<open>The first-move loop of \<open>legal_to_place\<close>, with its flag \<open>touching_start\<close>.\<close>

fun start_loop :: "point set \<Rightarrow> point list \<Rightarrow> bool \<Rightarrow> bool" where
  "start_loop starts [] touching_start = touching_start"
| "start_loop starts (square # sqs) touching_start =
     start_loop starts sqs (if square \<in> starts then True else touching_start)"

definition clamp :: "int \<Rightarrow> int \<Rightarrow> int" where
  "clamp sz x = min (sz - 1) (max 0 x)"

text \<open>\<open>cell and cell[0] == player\<close>: a tuple is truthy, \<open>None\<close> is not.\<close>

definition own :: "int \<Rightarrow> cell \<Rightarrow> bool" where
  "own player c = (case c of None \<Rightarrow> False | Some (pl, k) \<Rightarrow> pl = player)"

text \<open>The edges loop: \<open>Inr False\<close> is its \<open>return False\<close>, \<open>Inr True\<close> its normal end.\<close>

fun edges_loop :: "Blokus \<Rightarrow> point list \<Rightarrow> error + bool" where
  "edges_loop s [] = Inr True"
| "edges_loop s ((x, y) # edges) =
     (case grid_get (grid s) (clamp (size_board s) x) (clamp (size_board s) y) of
        Inl e \<Rightarrow> Inl e
      | Inr edge_on_grid \<Rightarrow>
          if own (curr_player s) edge_on_grid then Inr False else edges_loop s edges)"

text \<open>The corners loop, with its flag \<open>touching_corner\<close>.\<close>

fun corners_loop :: "Blokus \<Rightarrow> point list \<Rightarrow> bool \<Rightarrow> error + bool" where
  "corners_loop s [] touching_corner = Inr touching_corner"
| "corners_loop s ((x, y) # corners) touching_corner =
     (case grid_get (grid s) (clamp (size_board s) x) (clamp (size_board s) y) of
        Inl e \<Rightarrow> Inl e
      | Inr corner_on_grid \<Rightarrow>
          corners_loop s corners
            (if own (curr_player s) corner_on_grid then True else touching_corner))"

definition legal_to_place :: "Blokus \<Rightarrow> Piece \<Rightarrow> error + bool" where
  "legal_to_place s p =
     (case check_piece s (curr_player s) p of
        Inl e \<Rightarrow> Inl e
      | Inr _ \<Rightarrow>
          (case any_collisions s p of
             Inl e \<Rightarrow> Inl e
           | Inr True \<Rightarrow> Inr False
           | Inr False \<Rightarrow>
               (case shapes_played s (curr_player s) of
                  None \<Rightarrow> Inl KeyError
                | Some played \<Rightarrow>
                    if length played \<le> 0 then
                      (if \<not> start_loop (start_positions s) (piece_squares p) False
                       then Inr False else Inr True)
                    else
                      (case edges_loop s (cardinal_neighbors p) of
                         Inl e \<Rightarrow> Inl e
                       | Inr False \<Rightarrow> Inr False
                       | Inr True \<Rightarrow>
                           (case corners_loop s (intercardinal_neighbors p) False of
                              Inl e \<Rightarrow> Inl e
                            | Inr touching_corner \<Rightarrow>
                                if \<not> touching_corner then Inr False else Inr True)))))"

section \<open>Placing and retiring\<close>

text \<open>The loop that writes the piece into the grid; an exception keeps the writes made.\<close>

fun place_loop :: "Grid \<Rightarrow> cell \<Rightarrow> point list \<Rightarrow> (error + unit) \<times> Grid" where
  "place_loop g v [] = (Inr (), g)"
| "place_loop g v ((x, y) # sqs) =
     (case grid_set g x y v of
        Inl e \<Rightarrow> (Inl e, g)
      | Inr g1 \<Rightarrow> place_loop g1 v sqs)"

definition maybe_place :: "Blokus \<Rightarrow> Piece \<Rightarrow> (error + bool) \<times> Blokus" where
  "maybe_place s p =
     (let current_player = curr_player s in
      if current_player \<notin> retired s then
        (case check_piece s current_player p of
           Inl e \<Rightarrow> (Inl e, s)
         | Inr _ \<Rightarrow>
             (case legal_to_place s p of
                Inl e \<Rightarrow> (Inl e, s)
              | Inr False \<Rightarrow> (Inr False, s)
              | Inr True \<Rightarrow>
                  (case place_loop (grid s) (Some (current_player, kind (shape p)))
                          (piece_squares p) of
                     (Inl e, g1) \<Rightarrow> (Inl e, s\<lparr>grid := g1\<rparr>)
                   | (Inr _, g1) \<Rightarrow>
                       (case shapes_played s current_player of
                          None \<Rightarrow> (Inl KeyError, s\<lparr>grid := g1\<rparr>)
                        | Some played \<Rightarrow>
                            (case progress_turn
                                    (s\<lparr>grid := g1,
                                       shapes_played := (shapes_played s)
                                         (current_player \<mapsto> played @ [kind (shape p)])\<rparr>) of
                               (Inl e, s1) \<Rightarrow> (Inl e, s1)
                             | (Inr _, s1) \<Rightarrow> (Inr True, s1))))))
      else
        (case progress_turn s of
           (Inl e, s1) \<Rightarrow> (Inl e, s1)
         | (Inr _, s1) \<Rightarrow> (Inr True, s1)))"

definition retire :: "Blokus \<Rightarrow> (error + unit) \<times> Blokus" where
  "retire s = progress_turn (s\<lparr>retired := insert (curr_player s) (retired s)\<rparr>)"

section \<open>Scores and winners\<close>

text \<open>
  \<open>self.shapes[k]\<close> is a dictionary lookup; on the association list it is \<open>map_of\<close>,
  and a missing key raises \<open>KeyError\<close>. \<open>played[-1]\<close> raises \<open>IndexError\<close> on the
  empty list.
\<close>

fun score_loop :: "(ShapeKind \<times> Shape) list \<Rightarrow> ShapeKind list \<Rightarrow> int \<Rightarrow> error + int" where
  "score_loop sh [] score = Inr score"
| "score_loop sh (k # ks) score =
     (case map_of sh k of
        None \<Rightarrow> Inl KeyError
      | Some shp \<Rightarrow> score_loop sh ks (score - int (length (squares shp))))"

definition get_score :: "Blokus \<Rightarrow> int \<Rightarrow> error + int" where
  "get_score s player =
     (case remaining_shapes s player of
        Inl e \<Rightarrow> Inl e
      | Inr rs \<Rightarrow>
          if length rs > 0 then score_loop (shapes s) rs 0
          else
            (case shapes_played s player of
               None \<Rightarrow> Inl KeyError
             | Some played \<Rightarrow>
                 if played = [] then Inl IndexError
                 else
                   (case map_of (shapes s) (last played) of
                      None \<Rightarrow> Inl KeyError
                    | Some shp \<Rightarrow> if length (squares shp) = 1 then Inr 20 else Inr 15)))"

text \<open>The comprehension that collects the scores of players \<open>1 .. num_players\<close>.\<close>

fun scores_loop :: "Blokus \<Rightarrow> int list \<Rightarrow> error + int list" where
  "scores_loop s [] = Inr []"
| "scores_loop s (player # players) =
     (case get_score s player of
        Inl e \<Rightarrow> Inl e
      | Inr score \<Rightarrow>
          (case scores_loop s players of
             Inl e \<Rightarrow> Inl e
           | Inr scores \<Rightarrow> Inr (score # scores)))"

text \<open>
  The property \<open>winners\<close> (lines 128-139); \<open>max(scores)\<close> is evaluated once per element
  of \<open>scores\<close>, hence never on an empty list.
\<close>

definition winners :: "Blokus \<Rightarrow> (error + int list option) \<times> Blokus" where
  "winners s =
     (case game_over s of
        (Inl e, s1) \<Rightarrow> (Inl e, s1)
      | (Inr False, s1) \<Rightarrow> (Inr None, s1)
      | (Inr True, s1) \<Rightarrow>
          (case scores_loop s1 [1 .. num_players s1] of
             Inl e \<Rightarrow> (Inl e, s1)
           | Inr scores \<Rightarrow>
               (Inr (Some (map (\<lambda>(player, score). int player + 1)
                             (filter (\<lambda>(player, score). score = Max (set scores))
                                (enumerate 0 scores)))),
                s1)))"

section \<open>Construction\<close>

text \<open>
  The constructor (lines 21-55). \<open>super().__init__\<close> is in \<open>base.py\<close>; it is taken to
  store its three arguments. The catalog built from the table \<open>definitions\<close> is the
  parameter \<open>catalog_shapes\<close>.
\<close>

definition Blokus_init ::
  "int \<Rightarrow> int \<Rightarrow> point set \<Rightarrow> (ShapeKind \<times> Shape) list \<Rightarrow> error + Blokus" where
  "Blokus_init n sz starts catalog_shapes =
     (if n < 1 \<or> n > 4 then Inl (ValueError ''Game requires 1-4 players to start.'')
      else if sz < 5 then Inl (ValueError ''Minimum size of the board is 5 by 5.'')
      else if int (card starts) < n
        then Inl (ValueError ''There must be a start position for every player.'')
      else if \<exists>(x, y) \<in> starts. \<not> (0 \<le> x \<and> x \<le> sz - 1 \<and> 0 \<le> y \<and> y \<le> sz - 1)
        then Inl (ValueError ''Start position must be within grid.'')
      else Inr \<lparr>num_players = n, start_positions = starts, size_board = sz,
                curr_player = 1, shapes = catalog_shapes,
                shapes_played = (\<lambda>plr. if 1 \<le> plr \<and> plr \<le> n then Some [] else None),
                grid = replicate (nat sz) (replicate (nat sz) None),
                retired = {}\<rparr>)"

section \<open>Grid serialization\<close>

text \<open>
  \<open>grid_to_string\<close> and \<open>string_to_grid\<close> of \<open>grid.py\<close>. \<open>ShapeKind.name\<close> is the
  lookup of a member of the enum by name: the members are those listed above, and any
  other name raises \<open>AttributeError\<close>.
\<close>

definition ShapeKind_member :: "string \<Rightarrow> error + ShapeKind" where
  "ShapeKind_member name =
     (case map_of
        [(''ONE'', ONE), (''TWO'', TWO), (''THREE'', THREE), (''C'', C), (''FOUR'', FOUR),
         (''SEVEN'', SEVEN), (''S'', S), (''LETTER_O'', LETTER_O), (''A'', A), (''F'', F),
         (''FIVE'', FIVE), (''L'', L), (''N'', N), (''P'', P), (''T'', T), (''U'', U),
         (''V'', V), (''W'', W), (''X'', X), (''Y'', Y), (''Z'', Z)] name of
        None \<Rightarrow> Inl AttributeError
      | Some k \<Rightarrow> Inr k)"

text \<open>\<open>str(n)\<close> for an integer: its decimal digits, after a minus sign if it is negative.\<close>

definition digit_char :: "nat \<Rightarrow> char" where
  "digit_char d = ''0123456789'' ! d"

fun str_nat :: "nat \<Rightarrow> string" where
  "str_nat n = (if n < 10 then [digit_char n] else str_nat (n div 10) @ [digit_char (n mod 10)])"

declare str_nat.simps [simp del]

definition str_int :: "int \<Rightarrow> string" where
  "str_int i = (if i < 0 then CHR ''-'' # str_nat (nat (- i)) else str_nat (nat i))"

text \<open>
  \<open>repr(ch)\<close> for a string of one character: between single quotes (double quotes for
  the single quote itself), with the backslash doubled, tab, newline and return as
  \<open>\t\<close>, \<open>\n\<close>, \<open>\r\<close>, and every other code point that is not printable (below 32, 127
  to 160, and 173) as \<open>\xhh\<close>.
\<close>

definition hex_digit :: "nat \<Rightarrow> char" where
  "hex_digit d = ''0123456789abcdef'' ! d"

definition py_repr :: "char \<Rightarrow> string" where
  "py_repr ch =
     (let n = (of_char ch :: nat) in
      if ch = CHR 0x27 then [CHR 0x22, ch, CHR 0x22]
      else [CHR 0x27]
        @ (if ch = CHR 0x5C then [CHR 0x5C, CHR 0x5C]
           else if ch = CHR 0x09 then [CHR 0x5C, CHR ''t'']
           else if ch = CHR 0x0A then [CHR 0x5C, CHR ''n'']
           else if ch = CHR 0x0D then [CHR 0x5C, CHR ''r'']
           else if n < 32 \<or> (127 \<le> n \<and> n \<le> 160) \<or> n = 173
             then [CHR 0x5C, CHR ''x'', hex_digit (n div 16), hex_digit (n mod 16)]
           else [ch])
        @ [CHR 0x27])"

text \<open>
  \<open>int(ch)\<close> for a string of one character: the value of a decimal digit, or
  \<open>ValueError\<close> with the message of Python, which ends in \<open>repr(ch)\<close>.
\<close>

definition py_int :: "char \<Rightarrow> error + int" where
  "py_int ch =
     (case map_of
        [(CHR ''0'', 0), (CHR ''1'', 1), (CHR ''2'', 2), (CHR ''3'', 3), (CHR ''4'', 4),
         (CHR ''5'', 5), (CHR ''6'', 6), (CHR ''7'', 7), (CHR ''8'', 8), (CHR ''9'', 9)] ch of
        None \<Rightarrow> Inl (ValueError (''invalid literal for int() with base 10: '' @ py_repr ch))
      | Some d \<Rightarrow> Inr d)"

text \<open>\<open>sep.join(lines)\<close>, the frame line, and the loop that renders one row.\<close>

fun join :: "string \<Rightarrow> string list \<Rightarrow> string" where
  "join sep [] = []"
| "join sep [l] = l"
| "join sep (l # ls) = l @ sep @ join sep ls"

definition frame :: "nat \<Rightarrow> string" where
  "frame width = ''+'' @ replicate (width * 2) CHR ''-'' @ ''+''"

definition row_to_string :: "cell list \<Rightarrow> string" where
  "row_to_string row =
     foldl (\<lambda>row_str cell.
              case cell of
                None \<Rightarrow> row_str @ ''  ''
              | Some (player, shape_kind) \<Rightarrow> row_str @ str_int player @ '' '')
       ''|'' row @ ''|''"

definition grid_to_string :: "Grid \<Rightarrow> string" where
  "grid_to_string g =
     (let height = length g;
          width = (if height > 0 then length (g ! 0) else 0)
      in join [CHR 0x0A] ([frame width] @ map row_to_string g @ [frame width]))"

text \<open>
  A character is a code point from 0 to 255. \<open>s.strip()\<close> removes the white space at
  both ends (among these code points: 9 to 13, 28 to 32, 133 and 160), \<open>s.split(sep)\<close>
  cuts at every separator (and returns one empty string for the empty string).
\<close>

definition isspace :: "char \<Rightarrow> bool" where
  "isspace ch \<longleftrightarrow>
     ch \<in> set [CHR 0x09, CHR 0x0A, CHR 0x0B, CHR 0x0C, CHR 0x0D,
                CHR 0x1C, CHR 0x1D, CHR 0x1E, CHR 0x1F, CHR '' '',
                CHR 0x85, CHR 0xA0]"

definition strip :: "string \<Rightarrow> string" where
  "strip s = rev (dropWhile isspace (rev (dropWhile isspace s)))"

fun split :: "char \<Rightarrow> string \<Rightarrow> string list" where
  "split sep [] = [[]]"
| "split sep (ch # s) =
     (if ch = sep then [] # split sep s
      else case split sep s of
             [] \<Rightarrow> [[ch]]
           | l # ls \<Rightarrow> (ch # l) # ls)"

text \<open>
  The inner loop of \<open>string_to_grid\<close> reads the characters at the odd indices from 1
  up to, not including, \<open>len(line) - 1\<close>; \<open>int(char)\<close> is evaluated before the
  attribute \<open>ShapeKind.One\<close> is looked up. The slice \<open>lines[1:-1]\<close> drops the first
  and the last line.
\<close>

fun cells_loop :: "string \<Rightarrow> nat list \<Rightarrow> error + cell list" where
  "cells_loop line [] = Inr []"
| "cells_loop line (i # is) =
     (let char = line ! i in
      case (if char = CHR '' '' then Inr None
            else case py_int char of
                   Inl e \<Rightarrow> Inl e
                 | Inr player \<Rightarrow>
                     (case ShapeKind_member ''One'' of
                        Inl e \<Rightarrow> Inl e
                      | Inr k \<Rightarrow> Inr (Some (player, k)))) of
        Inl e \<Rightarrow> Inl e
      | Inr c \<Rightarrow>
          (case cells_loop line is of
             Inl e \<Rightarrow> Inl e
           | Inr row \<Rightarrow> Inr (c # row)))"

fun lines_loop :: "string list \<Rightarrow> error + Grid" where
  "lines_loop [] = Inr []"
| "lines_loop (line # lines) =
     (case cells_loop line (filter odd [1 ..< length line - 1]) of
        Inl e \<Rightarrow> Inl e
      | Inr row \<Rightarrow>
          (case lines_loop lines of
             Inl e \<Rightarrow> Inl e
           | Inr cells \<Rightarrow> Inr (row # cells)))"

definition string_to_grid :: "string \<Rightarrow> error + Grid" where
  "string_to_grid s =
     (let lines = split (CHR 0x0A) (strip s)
      in lines_loop (butlast (tl lines)))"

section \<open>Sequences of calls\<close>

text \<open>
  A caller drives the engine through its methods and properties. \<open>do_call\<close> is the
  state a call leaves behind, whether it returns or raises; \<open>run\<close> makes the calls of a
  list one after the other. The reachable states are those of a game the constructor
  returned (for a catalog that is not empty), after any calls.
\<close>

datatype call = Maybe_place Piece | Retire | Progress_turn | Game_over | Winners

fun do_call :: "Blokus \<Rightarrow> call \<Rightarrow> Blokus" where
  "do_call s (Maybe_place p) = snd (maybe_place s p)"
| "do_call s Retire = snd (retire s)"
| "do_call s Progress_turn = snd (progress_turn s)"
| "do_call s Game_over = snd (game_over s)"
| "do_call s Winners = snd (winners s)"

fun run :: "Blokus \<Rightarrow> call list \<Rightarrow> Blokus" where
  "run s [] = s"
| "run s (c # cs) = run (do_call s c) cs"

inductive reachable :: "Blokus \<Rightarrow> bool" where
  init: "Blokus_init n sz starts catalog_shapes = Inr s \<Longrightarrow> catalog_shapes \<noteq> []
           \<Longrightarrow> reachable s"
| step: "reachable s \<Longrightarrow> reachable (do_call s c)"

section \<open>Well-formed states\<close>

text \<open>
  What the constructor establishes and every operation keeps: between one and four
  players, a board of side at least 5 stored as that many rows of that many cells, a
  played-list for exactly the players \<open>1 .. num_players\<close> holding kinds of the
  catalog only, a catalog that is not empty, and a cursor on one of the players.
\<close>

definition well_formed :: "Blokus \<Rightarrow> bool" where
  "well_formed s \<longleftrightarrow>
     1 \<le> num_players s \<and> num_players s \<le> 4 \<and>
     5 \<le> size_board s \<and>
     length (grid s) = nat (size_board s) \<and>
     (\<forall>row \<in> set (grid s). length row = nat (size_board s)) \<and>
     dom (shapes_played s) = {1 .. num_players s} \<and>
     (\<forall>played \<in> ran (shapes_played s). set played \<subseteq> fst ` set (shapes s)) \<and>
     shapes s \<noteq> [] \<and>
     1 \<le> curr_player s \<and> curr_player s \<le> num_players s"

text \<open>
  The cell of the grid at a point of the board, and the componentwise clamp of
  \<open>legal_to_place\<close> as a map on points.
\<close>

definition on_board :: "Blokus \<Rightarrow> point \<Rightarrow> bool" where
  "on_board s pt \<longleftrightarrow>
     0 \<le> fst pt \<and> fst pt < size_board s \<and> 0 \<le> snd pt \<and> snd pt < size_board s"

definition cell_at :: "Blokus \<Rightarrow> point \<Rightarrow> cell" where
  "cell_at s pt = grid s ! nat (fst pt) ! nat (snd pt)"

definition clamp_point :: "Blokus \<Rightarrow> point \<Rightarrow> point" where
  "clamp_point s pt = (clamp (size_board s) (fst pt), clamp (size_board s) (snd pt))"

text \<open>
  The number of squares of a kind in the catalog of the state, and the score of a
  player as a number (for players whose score \<open>get_score\<close> returns).
\<close>

definition square_count :: "Blokus \<Rightarrow> ShapeKind \<Rightarrow> int" where
  "square_count s k = (case map_of (shapes s) k of None \<Rightarrow> 0 | Some shp \<Rightarrow> int (length (squares shp)))"

definition score_value :: "Blokus \<Rightarrow> int \<Rightarrow> int" where
  "score_value s p = (case get_score s p of Inl e \<Rightarrow> 0 | Inr v \<Rightarrow> v)"

text \<open>
  A grid of \<open>sz\<close> rows of \<open>sz\<close> cells, a point inside it, and the relation between a
  state and a later one that has the same size and every occupant the earlier one had.
\<close>

definition grid_ok :: "int \<Rightarrow> Grid \<Rightarrow> bool" where
  "grid_ok sz g \<longleftrightarrow> length g = nat sz \<and> (\<forall>row \<in> set g. length row = nat sz)"

definition in_range :: "int \<Rightarrow> point \<Rightarrow> bool" where
  "in_range sz pt \<longleftrightarrow> 0 \<le> fst pt \<and> fst pt < sz \<and> 0 \<le> snd pt \<and> snd pt < sz"

definition keeps :: "Blokus \<Rightarrow> Blokus \<Rightarrow> bool" where
  "keeps s s1 \<longleftrightarrow>
     size_board s1 = size_board s \<and>
     (\<forall>pt occ. on_board s pt \<longrightarrow> cell_at s pt = Some occ \<longrightarrow> cell_at s1 pt = Some occ)"

section \<open>Example data\<close>

text \<open>
  A catalog of the 21 kinds with the cells of the usual polyominoes, for the concrete
  examples only; every general theorem is about whatever catalog the state holds.
\<close>

definition catalog :: "(ShapeKind \<times> Shape) list" where
  "catalog =
    [(ONE, \<lparr>kind = ONE, squares = [(0,0)]\<rparr>),
     (TWO, \<lparr>kind = TWO, squares = [(0,0),(0,1)]\<rparr>),
     (THREE, \<lparr>kind = THREE, squares = [(0,0),(0,1),(0,2)]\<rparr>),
     (C, \<lparr>kind = C, squares = [(0,0),(0,1),(1,0)]\<rparr>),
     (FOUR, \<lparr>kind = FOUR, squares = [(0,0),(0,1),(0,2),(0,3)]\<rparr>),
     (SEVEN, \<lparr>kind = SEVEN, squares = [(0,0),(0,1),(1,1),(2,1)]\<rparr>),
     (S, \<lparr>kind = S, squares = [(0,1),(0,2),(1,0),(1,1)]\<rparr>),
     (LETTER_O, \<lparr>kind = LETTER_O, squares = [(0,0),(0,1),(1,0),(1,1)]\<rparr>),
     (A, \<lparr>kind = A, squares = [(0,1),(1,0),(1,1),(1,2)]\<rparr>),
     (F, \<lparr>kind = F, squares = [(0,1),(0,2),(1,0),(1,1),(2,1)]\<rparr>),
     (FIVE, \<lparr>kind = FIVE, squares = [(0,0),(1,0),(2,0),(3,0),(4,0)]\<rparr>),
     (L, \<lparr>kind = L, squares = [(0,0),(1,0),(2,0),(3,0),(3,1)]\<rparr>),
     (N, \<lparr>kind = N, squares = [(0,1),(1,0),(1,1),(2,0),(3,0)]\<rparr>),
     (P, \<lparr>kind = P, squares = [(0,0),(0,1),(1,0),(1,1),(2,0)]\<rparr>),
     (T, \<lparr>kind = T, squares = [(0,0),(0,1),(0,2),(1,1),(2,1)]\<rparr>),
     (U, \<lparr>kind = U, squares = [(0,0),(0,2),(1,0),(1,1),(1,2)]\<rparr>),
     (V, \<lparr>kind = V, squares = [(0,2),(1,2),(2,0),(2,1),(2,2)]\<rparr>),
     (W, \<lparr>kind = W, squares = [(0,2),(1,1),(1,2),(2,0),(2,1)]\<rparr>),
     (X, \<lparr>kind = X, squares = [(0,1),(1,0),(1,1),(1,2),(2,1)]\<rparr>),
     (Y, \<lparr>kind = Y, squares = [(0,1),(1,0),(1,1),(2,1),(3,1)]\<rparr>),
     (Z, \<lparr>kind = Z, squares = [(0,0),(0,1),(1,1),(2,1),(2,2)]\<rparr>)]"

definition empty_grid :: "int \<Rightarrow> Grid" where
  "empty_grid n = replicate (nat n) (replicate (nat n) None)"

text \<open>
  Two players on a board of size 5, nothing placed, both retired, the cursor on
  player 1: the state in which \<open>progress_turn\<close> asks \<open>game_over\<close> after the second of
  two players has retired.
\<close>

definition both_retired :: Blokus where
  "both_retired =
     \<lparr>num_players = 2, start_positions = {(0,0),(4,4)}, size_board = 5,
      curr_player = 1, shapes = catalog,
      shapes_played = [1 \<mapsto> [], 2 \<mapsto> []],
      grid = empty_grid 5, retired = {1, 2}\<rparr>"

text \<open>
  The 1-square and the 2-square shape anchored at a point, with the neighbour lists of
  the spec: the orthogonal neighbours outside the piece, and the diagonal neighbours
  that are neither in the piece nor orthogonal neighbours.
\<close>

definition one_at :: "point \<Rightarrow> Piece" where
  "one_at a =
     \<lparr>shape = \<lparr>kind = ONE, squares = [(0,0)]\<rparr>, anchor = Some a,
      piece_squares = [a],
      cardinal_neighbors =
        [(fst a - 1, snd a), (fst a + 1, snd a), (fst a, snd a - 1), (fst a, snd a + 1)],
      intercardinal_neighbors =
        [(fst a - 1, snd a - 1), (fst a - 1, snd a + 1),
         (fst a + 1, snd a - 1), (fst a + 1, snd a + 1)]\<rparr>"

definition two_at :: "point \<Rightarrow> Piece" where
  "two_at a =
     \<lparr>shape = \<lparr>kind = TWO, squares = [(0,0),(0,1)]\<rparr>, anchor = Some a,
      piece_squares = [a, (fst a, snd a + 1)],
      cardinal_neighbors =
        [(fst a - 1, snd a), (fst a + 1, snd a), (fst a, snd a - 1),
         (fst a - 1, snd a + 1), (fst a + 1, snd a + 1), (fst a, snd a + 2)],
      intercardinal_neighbors =
        [(fst a - 1, snd a - 1), (fst a + 1, snd a - 1),
         (fst a - 1, snd a + 2), (fst a + 1, snd a + 2)]\<rparr>"

text \<open>
  The game the constructor returns for two players, size 5 and the start positions
  \<open>(0,0)\<close> and \<open>(4,4)\<close>, and the same game after each player has put the
  1-square shape on a start position.
\<close>

definition new_game :: Blokus where
  "new_game =
     \<lparr>num_players = 2, start_positions = {(0,0),(4,4)}, size_board = 5,
      curr_player = 1, shapes = catalog,
      shapes_played = (\<lambda>plr. if 1 \<le> plr \<and> plr \<le> 2 then Some [] else None),
      grid = empty_grid 5, retired = {}\<rparr>"

definition after_openings :: Blokus where
  "after_openings =
     \<lparr>num_players = 2, start_positions = {(0,0),(4,4)}, size_board = 5,
      curr_player = 1, shapes = catalog,
      shapes_played = (\<lambda>plr. if 1 \<le> plr \<and> plr \<le> 2 then Some [] else None)
         (1 \<mapsto> [ONE], 2 \<mapsto> [ONE]),
      grid = [[Some (1, ONE), None, None, None, None],
              [None, None, None, None, None],
              [None, None, None, None, None],
              [None, None, None, None, None],
              [None, None, None, None, Some (2, ONE)]],
      retired = {}\<rparr>"

text \<open>
  The new game right after player 1 was added to the retired set (the state in which
  \<open>retire\<close> calls \<open>progress_turn\<close>), and a piece that was never anchored.
\<close>

definition one_retired :: Blokus where
  "one_retired = new_game\<lparr>retired := {1}\<rparr>"

definition loose_piece :: Piece where
  "loose_piece =
     \<lparr>shape = \<lparr>kind = ONE, squares = [(0,0)]\<rparr>, anchor = None,
      piece_squares = [], cardinal_neighbors = [], intercardinal_neighbors = []\<rparr>"

text \<open>
  A game both players have left, player 1 two shapes in and player 2 one; and a game
  in which both players have played every kind, player 1 ending on the 1-square shape
  and player 2 on \<open>Z\<close> (the grid plays no part in the score and is left empty).
\<close>

definition stopped_game :: Blokus where
  "stopped_game =
     \<lparr>num_players = 2, start_positions = {(0,0),(4,4)}, size_board = 5,
      curr_player = 2, shapes = catalog,
      shapes_played = [1 \<mapsto> [ONE, TWO], 2 \<mapsto> [ONE]],
      grid = [[Some (1, ONE), None, None, None, None],
              [None, Some (1, TWO), Some (1, TWO), None, None],
              [None, None, None, None, None],
              [None, None, None, None, None],
              [None, None, None, None, Some (2, ONE)]],
      retired = {1, 2}\<rparr>"

definition all_played :: Blokus where
  "all_played =
     \<lparr>num_players = 2, start_positions = {(0,0),(13,13)}, size_board = 14,
      curr_player = 2, shapes = catalog,
      shapes_played = [1 \<mapsto> rev (map fst catalog), 2 \<mapsto> map fst catalog],
      grid = empty_grid 14, retired = {}\<rparr>"

text \<open>The new game after player 1 has put the 1-square shape on \<open>(0,0)\<close>.\<close>

definition first_placed :: Blokus where
  "first_placed =
     \<lparr>num_players = 2, start_positions = {(0,0),(4,4)}, size_board = 5,
      curr_player = 2, shapes = catalog,
      shapes_played = (\<lambda>plr. if 1 \<le> plr \<and> plr \<le> 2 then Some [] else None)
         (1 \<mapsto> [ONE]),
      grid = [[Some (1, ONE), None, None, None, None],
              [None, None, None, None, None],
              [None, None, None, None, None],
              [None, None, None, None, None],
              [None, None, None, None, None]],
      retired = {}\<rparr>"

text \<open>The grid of \<open>test_grid_3\<close> in \<open>grid.py\<close>.\<close>

definition test_grid_3 :: Grid where
  "test_grid_3 =
     [[None, None, None, None],
      [None, Some (1, ONE), None, None],
      [None, None, Some (2, ONE), None],
      [None, None, None, None]]"

section \<open>What the iterations compute\<close>

lemma grid_get_on_board:
  assumes "length (grid s) = nat (size_board s)"
    and "\<forall>row \<in> set (grid s). length row = nat (size_board s)"
    and "on_board s (x, y)"
  shows "grid_get (grid s) x y = Inr (cell_at s (x, y))"
proof -
  from assms(1,3) have x: "py_index (grid s) x = Inr (nat x)"
    by (simp add: py_index_def on_board_def)
  from assms(1,3) have "grid s ! nat x \<in> set (grid s)"
    by (simp add: on_board_def)
  with assms(2) have "length (grid s ! nat x) = nat (size_board s)" by blast
  with assms(3) have y: "py_index (grid s ! nat x) y = Inr (nat y)"
    by (simp add: py_index_def on_board_def)
  show ?thesis by (simp add: grid_get_def x y cell_at_def)
qed

lemma clamp_on_board: "1 \<le> size_board s \<Longrightarrow> on_board s (clamp_point s pt)"
  by (auto simp: on_board_def clamp_point_def clamp_def)

lemma grid_get_clamp:
  assumes "well_formed s"
  shows "grid_get (grid s) (clamp (size_board s) x) (clamp (size_board s) y)
         = Inr (cell_at s (clamp_point s (x, y)))"
proof -
  from assms have "1 \<le> size_board s" by (simp add: well_formed_def)
  from clamp_on_board [OF this, of "(x, y)"]
  have "on_board s (clamp (size_board s) x, clamp (size_board s) y)"
    by (simp add: clamp_point_def)
  with assms show ?thesis
    using grid_get_on_board [of s "clamp (size_board s) x" "clamp (size_board s) y"]
    by (simp add: well_formed_def clamp_point_def)
qed

lemma edges_loop_eq:
  assumes "well_formed s"
  shows "edges_loop s es
         = Inr (\<forall>pt \<in> set es. \<not> own (curr_player s) (cell_at s (clamp_point s pt)))"
  by (induction es) (auto simp: grid_get_clamp [OF assms])

lemma corners_loop_eq:
  assumes "well_formed s"
  shows "corners_loop s cs t
         = Inr (t \<or> (\<exists>pt \<in> set cs. own (curr_player s) (cell_at s (clamp_point s pt))))"
  by (induction cs arbitrary: t) (auto simp: grid_get_clamp [OF assms])

lemma start_loop_eq: "start_loop starts sqs t \<longleftrightarrow> t \<or> (\<exists>sq \<in> set sqs. sq \<in> starts)"
  by (induction sqs arbitrary: t) auto

lemma check_piece_ok:
  assumes "anchor p \<noteq> None" "remaining_shapes s player = Inr rs" "kind (shape p) \<in> set rs"
  shows "check_piece s player p = Inr ()"
  using assms by (simp add: check_piece_def)

section \<open>What \<open>game_over\<close> and \<open>progress_turn\<close> compute\<close>

lemma remaining_shapes_known:
  assumes "shapes_played s p \<noteq> None"
  obtains rs where "remaining_shapes s p = Inr rs"
proof -
  from assms have "\<exists>rs. remaining_shapes s p = Inr rs"
    by (cases "shapes_played s p") (simp_all add: remaining_shapes_def)
  with that show thesis by blast
qed

lemma well_formed_known:
  assumes "well_formed s" "1 \<le> p" "p \<le> num_players s"
  shows "shapes_played s p \<noteq> None"
proof -
  from assms have "p \<in> dom (shapes_played s)" by (simp add: well_formed_def)
  then show ?thesis by blast
qed

lemma game_over_loop_eq:
  assumes "\<forall>p \<in> set ps. shapes_played s p \<noteq> None"
  shows "game_over_loop s cur ps =
     (if \<exists>p \<in> set ps. playable s p then (Inr False, s\<lparr>curr_player := cur\<rparr>)
      else (Inr True, if ps = [] then s else s\<lparr>curr_player := last ps\<rparr>))"
  using assms
proof (induction ps arbitrary: s)
  case Nil
  show ?case by simp
next
  case (Cons p ps)
  from Cons.prems have "shapes_played s p \<noteq> None" by simp
  then obtain rs where rs: "remaining_shapes s p = Inr rs" by (rule remaining_shapes_known)
  let ?s1 = "s\<lparr>curr_player := p\<rparr>"
  have keys: "\<forall>q \<in> set ps. shapes_played ?s1 q \<noteq> None" using Cons.prems by simp
  note ih = Cons.IH [OF keys]
  show ?case
  proof (cases "playable s p")
    case True
    then show ?thesis by (simp add: playable_def rs Let_def)
  next
    case False
    then have "game_over_loop s cur (p # ps) = game_over_loop ?s1 cur ps"
      by (auto simp: playable_def rs Let_def)
    with False show ?thesis by (simp add: ih)
  qed
qed

lemma game_over_eq:
  assumes "well_formed s"
  shows "game_over s =
     (if \<exists>p \<in> {1 .. num_players s}. playable s p then (Inr False, s)
      else (Inr True, s\<lparr>curr_player := num_players s\<rparr>))"
proof -
  from assms have n: "1 \<le> num_players s"
    and keys: "\<forall>p \<in> set [1 .. num_players s]. shapes_played s p \<noteq> None"
    by (auto simp: well_formed_def intro: well_formed_known)
  from n have ne: "[1 .. num_players s] \<noteq> []" by (simp add: upto.simps)
  from n have "[1 .. num_players s] = [1 .. num_players s - 1] @ [num_players s]"
    by (simp add: upto_rec2)
  then have l: "last [1 .. num_players s] = num_players s"
    by (metis last_snoc)
  show ?thesis
    unfolding game_over_def game_over_loop_eq [OF keys]
    using ne by (simp add: l)
qed

lemma turn_blocked_eq:
  assumes "well_formed s"
  shows "turn_blocked s =
     (if playable s (curr_player s) then (Inr False, s)
      else if \<exists>p \<in> {1 .. num_players s}. playable s p then (Inr True, s)
      else (Inr False, s\<lparr>curr_player := num_players s\<rparr>))"
proof -
  from assms have "shapes_played s (curr_player s) \<noteq> None"
    by (intro well_formed_known) (simp_all add: well_formed_def)
  then obtain rs where rs: "remaining_shapes s (curr_player s) = Inr rs"
    by (rule remaining_shapes_known)
  show ?thesis
    by (auto simp: turn_blocked_def not_game_over_def game_over_eq [OF assms]
        playable_def rs)
qed

lemma well_formed_cursor:
  assumes "well_formed s" "1 \<le> c" "c \<le> num_players s"
  shows "well_formed (s\<lparr>curr_player := c\<rparr>)"
  using assms by (simp add: well_formed_def)

lemma advance_range:
  assumes "1 \<le> num_players s"
  shows "1 \<le> advance s c" "advance s c \<le> num_players s"
proof -
  from assms have "0 \<le> c mod num_players s" "c mod num_players s < num_players s"
    by simp_all
  then show "1 \<le> advance s c" "advance s c \<le> num_players s"
    by (simp_all add: advance_def)
qed

lemma turns_to_wait_step:
  assumes "\<not> playable s (curr_player s)"
    and "1 \<le> p" "p \<le> num_players s" "playable s p"
  shows "turns_to_wait s = Suc (turns_to_wait (s\<lparr>curr_player := advance s (curr_player s)\<rparr>))"
proof -
  let ?P = "\<lambda>k. playable s ((advance s ^^ k) (curr_player s))"
  let ?s2 = "s\<lparr>curr_player := advance s (curr_player s)\<rparr>"
  from advance_reaches [OF assms(2,3)] assms(4) obtain k where "?P k" by metis
  moreover have "\<not> ?P 0" using assms(1) by simp
  ultimately have "(LEAST k. ?P k) = Suc (LEAST k. ?P (Suc k))" by (rule Least_Suc)
  moreover have "advance ?s2 = advance s" by (simp add: advance_def fun_eq_iff)
  then have "turns_to_wait ?s2 = (LEAST k. ?P (Suc k))"
    unfolding turns_to_wait_def by (simp add: funpow_swap1)
  ultimately show ?thesis by (simp add: turns_to_wait_def)
qed

lemma progress_loop_eq:
  assumes "well_formed s"
  shows "progress_loop s =
     (Inr (), s\<lparr>curr_player :=
        (if \<exists>p \<in> {1 .. num_players s}. playable s p
         then (advance s ^^ turns_to_wait s) (curr_player s)
         else num_players s)\<rparr>)"
  using assms
proof (induction s rule: progress_loop.induct)
  case (1 s)
  note wf = \<open>well_formed s\<close>
  from wf have n: "1 \<le> num_players s" by (simp add: well_formed_def)
  show ?case
  proof (cases "playable s (curr_player s)")
    case True
    then have "turns_to_wait s = 0" by (simp add: turns_to_wait_def)
    moreover from True wf have "\<exists>p \<in> {1 .. num_players s}. playable s p"
      by (auto simp: well_formed_def)
    ultimately show ?thesis using True
      by (subst progress_loop.simps) (simp add: turn_blocked_eq [OF wf])
  next
    case np: False
    show ?thesis
    proof (cases "\<exists>p \<in> {1 .. num_players s}. playable s p")
      case False
      with np show ?thesis
        by (subst progress_loop.simps) (simp add: turn_blocked_eq [OF wf])
    next
      case True
      let ?s2 = "s\<lparr>curr_player := advance s (curr_player s)\<rparr>"
      have tb: "turn_blocked s = (Inr True, s)"
        using np True by (simp add: turn_blocked_eq [OF wf])
      have nx: "next_player s = Inr ?s2"
        using n by (simp add: next_player_def advance_def)
      have wf2: "well_formed ?s2"
        using wf advance_range [OF n] by (rule well_formed_cursor)
      from "1.IH" [OF tb [symmetric] refl _ nx wf2]
      have ih: "progress_loop ?s2 =
        (Inr (), ?s2\<lparr>curr_player :=
           (if \<exists>p \<in> {1 .. num_players ?s2}. playable ?s2 p
            then (advance ?s2 ^^ turns_to_wait ?s2) (curr_player ?s2)
            else num_players ?s2)\<rparr>)" by simp
      from True obtain p where p: "1 \<le> p" "p \<le> num_players s" "playable s p" by auto
      have adv: "advance ?s2 = advance s" by (simp add: advance_def fun_eq_iff)
      have "progress_loop s = progress_loop ?s2"
        by (subst progress_loop.simps) (simp add: tb nx)
      also have "\<dots> = (Inr (), s\<lparr>curr_player :=
          (advance s ^^ turns_to_wait ?s2) (advance s (curr_player s))\<rparr>)"
        using True by (simp add: ih adv)
      also have "(advance s ^^ turns_to_wait ?s2) (advance s (curr_player s))
          = (advance s ^^ turns_to_wait s) (curr_player s)"
        by (simp add: turns_to_wait_step [OF np p] funpow_swap1)
      finally show ?thesis using True by simp
    qed
  qed
qed


lemma advance_reaches_soon:
  assumes "1 \<le> p" "p \<le> num_players s"
  shows "\<exists>k < nat (num_players s). (advance s ^^ Suc k) c = p"
proof -
  let ?n = "num_players s"
  have n: "0 < ?n" using assms by simp
  define k where "k = nat ((p - 1 - c) mod ?n)"
  have "(p - 1 - c) mod ?n < ?n" using n by simp
  then have kn: "k < nat ?n" using n by (simp add: k_def)
  have "(c + int k) mod ?n = (c + (p - 1 - c) mod ?n) mod ?n"
    using n by (simp add: k_def)
  also have "\<dots> = (p - 1) mod ?n" by (simp add: mod_simps)
  also have "\<dots> = p - 1" using assms by simp
  finally have "(c + int k) mod ?n + 1 = p" by simp
  then have "(advance s ^^ Suc k) c = p"
    by (simp only: advance_funpow [OF n])
  with kn show ?thesis by blast
qed

lemma progress_turn_eq:
  assumes "well_formed s"
  shows "progress_turn s =
     (Inr (), s\<lparr>curr_player :=
        (if \<exists>p \<in> {1 .. num_players s}. playable s p
         then (advance s ^^ Suc (LEAST k. playable s ((advance s ^^ Suc k) (curr_player s))))
                (curr_player s)
         else num_players s)\<rparr>)"
proof -
  from assms have n: "1 \<le> num_players s" by (simp add: well_formed_def)
  let ?s1 = "s\<lparr>curr_player := advance s (curr_player s)\<rparr>"
  have nx: "next_player s = Inr ?s1"
    using n by (simp add: next_player_def advance_def)
  have wf1: "well_formed ?s1"
    using assms advance_range [OF n] by (rule well_formed_cursor)
  have adv: "advance ?s1 = advance s" by (simp add: advance_def fun_eq_iff)
  have "turns_to_wait ?s1 = (LEAST k. playable s ((advance s ^^ Suc k) (curr_player s)))"
    unfolding turns_to_wait_def adv by (simp add: funpow_swap1)
  then show ?thesis
    by (simp add: progress_turn_def nx progress_loop_eq [OF wf1] adv funpow_swap1)
qed

lemma not_playable_known:
  assumes "well_formed s" "1 \<le> q" "q \<le> num_players s" "\<not> playable s q"
  shows "q \<in> retired s \<or> remaining_shapes s q = Inr []"
proof -
  from well_formed_known [OF assms(1-3)]
  obtain rs where "remaining_shapes s q = Inr rs" by (rule remaining_shapes_known)
  with assms(4) show ?thesis by (auto simp: playable_def)
qed

lemma advance_Suc_range:
  assumes "1 \<le> num_players s"
  shows "1 \<le> (advance s ^^ Suc k) c" "(advance s ^^ Suc k) c \<le> num_players s"
  using advance_range [OF assms] by simp_all

section \<open>What \<open>get_score\<close> and \<open>winners\<close> compute\<close>

lemma score_loop_eq:
  assumes "set ks \<subseteq> fst ` set (shapes s)"
  shows "score_loop (shapes s) ks score = Inr (score - (\<Sum>k\<leftarrow>ks. square_count s k))"
  using assms
proof (induction ks arbitrary: score)
  case Nil
  show ?case by simp
next
  case (Cons k ks)
  from Cons.prems have "k \<in> fst ` set (shapes s)" by simp
  then obtain shp where shp: "map_of (shapes s) k = Some shp"
    by (metis map_of_eq_None_iff not_Some_eq)
  from Cons.prems have "set ks \<subseteq> fst ` set (shapes s)" by simp
  from Cons.IH [OF this] show ?case
    by (simp add: shp square_count_def)
qed

lemma remaining_shapes_eq:
  assumes "shapes_played s p = Some played"
  shows "remaining_shapes s p = Inr (filter (\<lambda>k. k \<notin> set played) (map fst (shapes s)))"
  using assms by (simp add: remaining_shapes_def)

lemma well_formed_played:
  assumes "well_formed s" "shapes_played s p = Some played"
  shows "set played \<subseteq> fst ` set (shapes s)"
proof -
  from assms(2) have "played \<in> ran (shapes_played s)" by (auto simp: ran_def)
  with assms(1) show ?thesis by (simp add: well_formed_def)
qed

lemma exhausted_last_played:
  assumes "well_formed s" "shapes_played s p = Some played"
    and "remaining_shapes s p = Inr []"
  shows "played \<noteq> []" and "\<exists>shp. map_of (shapes s) (last played) = Some shp"
proof -
  from assms(1) have ne: "shapes s \<noteq> []" by (simp add: well_formed_def)
  from assms(2,3) have "\<forall>k \<in> set (map fst (shapes s)). k \<in> set played"
    by (simp add: remaining_shapes_eq filter_empty_conv)
  moreover from ne obtain k where "k \<in> set (map fst (shapes s))"
    by (cases "shapes s") auto
  ultimately have "k \<in> set played" by blast
  then show "played \<noteq> []" by auto
  then have "last played \<in> set played" by simp
  with well_formed_played [OF assms(1,2)] have "last played \<in> fst ` set (shapes s)" by blast
  then show "\<exists>shp. map_of (shapes s) (last played) = Some shp"
    by (metis map_of_eq_None_iff not_Some_eq)
qed

lemma get_score_returns:
  assumes wf: "well_formed s" and player: "1 \<le> player" "player \<le> num_players s"
  shows "get_score s player = Inr (score_value s player)"
proof -
  from well_formed_known [OF wf player]
  obtain played where pl: "shapes_played s player = Some played" by blast
  define rs where "rs = filter (\<lambda>k. k \<notin> set played) (map fst (shapes s))"
  have rem: "remaining_shapes s player = Inr rs"
    unfolding rs_def by (rule remaining_shapes_eq [OF pl])
  have sub: "set rs \<subseteq> fst ` set (shapes s)" by (auto simp: rs_def)
  have "\<exists>v. get_score s player = Inr v"
  proof (cases "rs = []")
    case False
    then show ?thesis by (simp add: get_score_def rem score_loop_eq [OF sub])
  next
    case True
    with rem have r0: "remaining_shapes s player = Inr []" by simp
    from exhausted_last_played [OF wf pl r0]
    obtain shp where "played \<noteq> []" "map_of (shapes s) (last played) = Some shp" by blast
    then show ?thesis by (simp add: get_score_def r0 pl)
  qed
  then show ?thesis by (auto simp: score_value_def)
qed

lemma get_score_cursor [simp]: "get_score (s\<lparr>curr_player := c\<rparr>) p = get_score s p"
  by (simp add: get_score_def split: sum.splits option.splits)

lemma scores_loop_eq:
  assumes "\<forall>p \<in> set ps. get_score s p = Inr (f p)"
  shows "scores_loop s ps = Inr (map f ps)"
  using assms by (induction ps) simp_all

lemma enumerate_filter_players:
  "map (\<lambda>(player, score). int player + 1)
     (filter (\<lambda>(player, score). Q score) (enumerate m (map f [int m + 1 .. n])))
   = filter (\<lambda>p. Q (f p)) [int m + 1 .. n]"
proof (induction "nat (n - int m)" arbitrary: m)
  case 0
  then have "n < int m + 1" by simp
  then show ?case by simp
next
  case (Suc d)
  then have le: "int m + 1 \<le> n" by simp
  have "d = nat (n - int (Suc m))" using Suc.hyps(2) by simp
  from Suc.hyps(1) [OF this]
  have ih: "map (\<lambda>(player, score). int player + 1)
     (filter (\<lambda>(player, score). Q score) (enumerate (Suc m) (map f [int m + 2 .. n])))
   = filter (\<lambda>p. Q (f p)) [int m + 2 .. n]"
    by (simp add: add.commute add.left_commute)
  have split: "[int m + 1 .. n] = (int m + 1) # [int m + 2 .. n]"
    using upto_rec1 [OF le] by (simp add: add.commute)
  show ?case unfolding split using ih by simp
qed

lemma winners_eq:
  assumes wf: "well_formed s"
  shows "winners s =
     (if \<exists>p \<in> {1 .. num_players s}. playable s p then (Inr None, s)
      else (Inr (Some (filter
                 (\<lambda>p. score_value s p = Max (score_value s ` {1 .. num_players s}))
                 [1 .. num_players s])),
            s\<lparr>curr_player := num_players s\<rparr>))"
proof (cases "\<exists>p \<in> {1 .. num_players s}. playable s p")
  case True
  then show ?thesis by (simp add: winners_def game_over_eq [OF wf])
next
  case False
  let ?n = "num_players s"
  let ?s1 = "s\<lparr>curr_player := ?n\<rparr>"
  have go: "game_over s = (Inr True, ?s1)" using False by (simp add: game_over_eq [OF wf])
  have "\<forall>p \<in> set [1 .. ?n]. get_score ?s1 p = Inr (score_value s p)"
    using get_score_returns [OF wf] by simp
  then have sc: "scores_loop ?s1 [1 .. ?n] = Inr (map (score_value s) [1 .. ?n])"
    by (rule scores_loop_eq)
  have mx: "set (map (score_value s) [1 .. ?n]) = score_value s ` {1 .. ?n}" by simp
  have "map (\<lambda>(player, score). int player + 1)
     (filter (\<lambda>(player, score). score = Max (score_value s ` {1 .. ?n}))
        (enumerate 0 (map (score_value s) [1 .. ?n])))
     = filter (\<lambda>p. score_value s p = Max (score_value s ` {1 .. ?n})) [1 .. ?n]"
    using enumerate_filter_players
      [of "\<lambda>v. v = Max (score_value s ` {1 .. ?n})" 0 "score_value s" ?n]
    by simp
  then show ?thesis using False
    by (simp add: winners_def go sc mx del: set_map)
qed

section \<open>Every call keeps the state well formed and the occupants in place\<close>

lemma wall_loop_eq: "wall_loop sz sqs \<longleftrightarrow> (\<exists>sq \<in> set sqs. \<not> in_range sz sq)"
  by (induction sz sqs rule: wall_loop.induct) (auto simp: in_range_def)

lemma grid_get_in_range:
  assumes "grid_ok sz g" "in_range sz (x, y)"
  shows "grid_get g x y = Inr (g ! nat x ! nat y)"
proof -
  from assms have x: "py_index g x = Inr (nat x)"
    by (simp add: py_index_def grid_ok_def in_range_def)
  from assms have "g ! nat x \<in> set g" by (simp add: grid_ok_def in_range_def)
  with assms(1) have "length (g ! nat x) = nat sz" by (simp add: grid_ok_def)
  with assms(2) have y: "py_index (g ! nat x) y = Inr (nat y)"
    by (simp add: py_index_def in_range_def)
  show ?thesis by (simp add: grid_get_def x y)
qed

lemma grid_set_in_range:
  assumes "grid_ok sz g" "in_range sz (x, y)"
  shows "grid_set g x y v = Inr (g[nat x := (g ! nat x)[nat y := v]])"
proof -
  from assms have x: "py_index g x = Inr (nat x)"
    by (simp add: py_index_def grid_ok_def in_range_def)
  from assms have "g ! nat x \<in> set g" by (simp add: grid_ok_def in_range_def)
  with assms(1) have "length (g ! nat x) = nat sz" by (simp add: grid_ok_def)
  with assms(2) have y: "py_index (g ! nat x) y = Inr (nat y)"
    by (simp add: py_index_def in_range_def)
  show ?thesis by (simp add: grid_set_def x y)
qed

lemma grid_ok_update:
  assumes "grid_ok sz g" "in_range sz (x, y)"
  shows "grid_ok sz (g[nat x := (g ! nat x)[nat y := v]])"
proof -
  from assms have "g ! nat x \<in> set g" by (simp add: grid_ok_def in_range_def)
  with assms(1) have len: "length ((g ! nat x)[nat y := v]) = nat sz"
    by (simp add: grid_ok_def)
  have "set (g[nat x := (g ! nat x)[nat y := v]]) \<subseteq> insert ((g ! nat x)[nat y := v]) (set g)"
    by (rule set_update_subset_insert)
  with assms(1) len show ?thesis by (auto simp: grid_ok_def)
qed

lemma grid_update_nth:
  assumes "grid_ok sz g" "in_range sz (x, y)" "in_range sz (a, b)"
  shows "g[nat x := (g ! nat x)[nat y := v]] ! nat a ! nat b
         = (if (a, b) = (x, y) then v else g ! nat a ! nat b)"
proof -
  from assms have lx: "nat x < length g" and la: "nat a < length g"
    by (simp_all add: grid_ok_def in_range_def)
  then have "g ! nat x \<in> set g" by simp
  with assms(1) have "length (g ! nat x) = nat sz" by (simp add: grid_ok_def)
  with assms(2) have ly: "nat y < length (g ! nat x)" by (simp add: in_range_def)
  from assms(2,3) have inj: "nat a = nat x \<longleftrightarrow> a = x" "nat b = nat y \<longleftrightarrow> b = y"
    by (auto simp: in_range_def)
  show ?thesis using lx la ly inj
    by (auto simp: nth_list_update)
qed

lemma occupied_loop_eq:
  assumes "grid_ok sz g" "\<forall>sq \<in> set sqs. in_range sz sq"
  shows "occupied_loop g sqs = Inr (\<exists>(x, y) \<in> set sqs. g ! nat x ! nat y \<noteq> None)"
  using assms(2)
proof (induction sqs)
  case Nil
  show ?case by simp
next
  case (Cons sq sqs)
  obtain x y where sq: "sq = (x, y)" by (cases sq)
  from Cons.prems have r: "in_range sz (x, y)" by (simp add: sq)
  note get = grid_get_in_range [OF assms(1) r]
  from Cons have ih: "occupied_loop g sqs = Inr (\<exists>(x, y) \<in> set sqs. g ! nat x ! nat y \<noteq> None)"
    by simp
  show ?case by (simp add: sq get ih)
qed

lemma place_loop_eq:
  assumes "grid_ok sz g" "\<forall>sq \<in> set sqs. in_range sz sq"
  shows "\<exists>g1. place_loop g v sqs = (Inr (), g1) \<and> grid_ok sz g1 \<and>
           (\<forall>a b. in_range sz (a, b) \<longrightarrow>
              g1 ! nat a ! nat b = (if (a, b) \<in> set sqs then v else g ! nat a ! nat b))"
  using assms
proof (induction g v sqs rule: place_loop.induct)
  case (1 g v)
  then show ?case by simp
next
  case (2 g v x y sqs)
  from "2.prems" have r: "in_range sz (x, y)" and rest: "\<forall>sq \<in> set sqs. in_range sz sq"
    by simp_all
  let ?g = "g[nat x := (g ! nat x)[nat y := v]]"
  note st = grid_set_in_range [OF "2.prems"(1) r, of v]
  note ok = grid_ok_update [OF "2.prems"(1) r, of v]
  from "2.IH" [OF st ok rest]
  obtain g1 where g1: "place_loop ?g v sqs = (Inr (), g1)" "grid_ok sz g1"
    "\<forall>a b. in_range sz (a, b) \<longrightarrow>
        g1 ! nat a ! nat b = (if (a, b) \<in> set sqs then v else ?g ! nat a ! nat b)"
    by blast
  have "g1 ! nat a ! nat b = (if (a, b) \<in> set ((x, y) # sqs) then v else g ! nat a ! nat b)"
    if "in_range sz (a, b)" for a b
    using g1(3) that grid_update_nth [OF "2.prems"(1) r that, of v] by auto
  with g1(1,2) show ?case by (simp add: st)
qed


lemma keeps_refl: "keeps s s"
  by (simp add: keeps_def)

lemma keeps_trans: "keeps s s1 \<Longrightarrow> keeps s1 s2 \<Longrightarrow> keeps s s2"
  by (simp add: keeps_def on_board_def)

lemma keeps_cursor: "keeps s (s\<lparr>curr_player := c\<rparr>)"
  by (simp add: keeps_def cell_at_def)

lemma well_formed_grid_ok: "well_formed s \<Longrightarrow> grid_ok (size_board s) (grid s)"
  by (simp add: well_formed_def grid_ok_def)

lemma on_board_in_range: "on_board s pt = in_range (size_board s) pt"
  by (simp add: on_board_def in_range_def)

lemma any_collisions_free:
  assumes wf: "well_formed s" and free: "any_collisions s p = Inr False"
  shows "\<forall>sq \<in> set (piece_squares p). in_range (size_board s) sq"
    and "\<forall>(x, y) \<in> set (piece_squares p). grid s ! nat x ! nat y = None"
proof -
  from free have w: "\<not> wall_loop (size_board s) (piece_squares p)"
    and o: "occupied_loop (grid s) (piece_squares p) = Inr False"
    by (auto simp: any_collisions_def any_wall_collisions_def
        split: sum.splits bool.splits if_splits)
  from w show r: "\<forall>sq \<in> set (piece_squares p). in_range (size_board s) sq"
    by (simp add: wall_loop_eq)
  have "occupied_loop (grid s) (piece_squares p)
        = Inr (\<exists>(x, y) \<in> set (piece_squares p). grid s ! nat x ! nat y \<noteq> None)"
    by (rule occupied_loop_eq [OF well_formed_grid_ok [OF wf] r])
  with o have "\<not> (\<exists>(x, y) \<in> set (piece_squares p). grid s ! nat x ! nat y \<noteq> None)"
    by (simp del: not_None_eq)
  then show "\<forall>(x, y) \<in> set (piece_squares p). grid s ! nat x ! nat y = None"
    by blast
qed

lemma legal_needs_free:
  assumes "legal_to_place s p = Inr True"
  shows "any_collisions s p = Inr False"
  using assms
  by (auto simp: legal_to_place_def split: sum.splits bool.splits option.splits if_splits)

lemma progress_turn_cursor:
  assumes wf: "well_formed s"
  obtains c where "1 \<le> c" "c \<le> num_players s"
    "progress_turn s = (Inr (), s\<lparr>curr_player := c\<rparr>)"
proof -
  from wf have n: "1 \<le> num_players s" by (simp add: well_formed_def)
  define c where "c = (if \<exists>p \<in> {1 .. num_players s}. playable s p
     then (advance s ^^ Suc (LEAST k. playable s ((advance s ^^ Suc k) (curr_player s))))
            (curr_player s)
     else num_players s)"
  have "progress_turn s = (Inr (), s\<lparr>curr_player := c\<rparr>)"
    unfolding c_def by (rule progress_turn_eq [OF wf])
  moreover have "1 \<le> c" "c \<le> num_players s"
    using n advance_Suc_range [OF n] by (auto simp: c_def)
  ultimately show thesis using that by blast
qed

lemma progress_turn_keeps:
  assumes wf: "well_formed s"
  shows "well_formed (snd (progress_turn s))" and "keeps s (snd (progress_turn s))"
    and "fst (progress_turn s) = Inr ()"
proof -
  from wf obtain c where c: "1 \<le> c" "c \<le> num_players s"
    "progress_turn s = (Inr (), s\<lparr>curr_player := c\<rparr>)" by (rule progress_turn_cursor)
  from well_formed_cursor [OF wf c(1,2)] c(3)
  show "well_formed (snd (progress_turn s))" by simp
  from c(3) show "keeps s (snd (progress_turn s))" by (simp add: keeps_cursor)
  from c(3) show "fst (progress_turn s) = Inr ()" by simp
qed

lemma game_over_keeps:
  assumes wf: "well_formed s"
  shows "well_formed (snd (game_over s))" and "keeps s (snd (game_over s))"
proof -
  from wf have n: "1 \<le> num_players s" by (simp add: well_formed_def)
  have wfn: "well_formed (s\<lparr>curr_player := num_players s\<rparr>)"
    using wf n by (intro well_formed_cursor) simp_all
  with wf show "well_formed (snd (game_over s))" by (simp add: game_over_eq [OF wf])
  show "keeps s (snd (game_over s))"
    by (simp add: game_over_eq [OF wf] keeps_cursor keeps_refl)
qed

lemma winners_keeps:
  assumes wf: "well_formed s"
  shows "well_formed (snd (winners s))" and "keeps s (snd (winners s))"
proof -
  from wf have n: "1 \<le> num_players s" by (simp add: well_formed_def)
  have wfn: "well_formed (s\<lparr>curr_player := num_players s\<rparr>)"
    using wf n by (intro well_formed_cursor) simp_all
  with wf show "well_formed (snd (winners s))" by (simp add: winners_eq [OF wf])
  show "keeps s (snd (winners s))"
    by (simp add: winners_eq [OF wf] keeps_cursor keeps_refl)
qed

lemma retire_keeps:
  assumes wf: "well_formed s"
  shows "well_formed (snd (retire s))" and "keeps s (snd (retire s))"
proof -
  let ?s1 = "s\<lparr>retired := insert (curr_player s) (retired s)\<rparr>"
  from wf have wf1: "well_formed ?s1" by (simp add: well_formed_def)
  have k1: "keeps s ?s1" by (simp add: keeps_def cell_at_def)
  from progress_turn_keeps(1) [OF wf1] show "well_formed (snd (retire s))"
    by (simp add: retire_def)
  from keeps_trans [OF k1 progress_turn_keeps(2) [OF wf1]]
  show "keeps s (snd (retire s))" by (simp add: retire_def)
qed

lemma placed_state:
  assumes wf: "well_formed s" and legal: "legal_to_place s p = Inr True"
    and chk: "check_piece s (curr_player s) p = Inr ()"
  obtains g1 played where
    "place_loop (grid s) (Some (curr_player s, kind (shape p))) (piece_squares p) = (Inr (), g1)"
    "shapes_played s (curr_player s) = Some played"
    "well_formed (s\<lparr>grid := g1, shapes_played := (shapes_played s)
         (curr_player s \<mapsto> played @ [kind (shape p)])\<rparr>)"
    "keeps s (s\<lparr>grid := g1, shapes_played := (shapes_played s)
         (curr_player s \<mapsto> played @ [kind (shape p)])\<rparr>)"
proof -
  let ?sz = "size_board s" and ?v = "Some (curr_player s, kind (shape p))"
  note free = any_collisions_free [OF wf legal_needs_free [OF legal]]
  from place_loop_eq [OF well_formed_grid_ok [OF wf] free(1), of ?v]
  obtain g1 where g1: "place_loop (grid s) ?v (piece_squares p) = (Inr (), g1)"
    "grid_ok ?sz g1"
    "\<forall>a b. in_range ?sz (a, b) \<longrightarrow>
        g1 ! nat a ! nat b = (if (a, b) \<in> set (piece_squares p) then ?v else grid s ! nat a ! nat b)"
    by blast
  from wf have "curr_player s \<in> dom (shapes_played s)" by (simp add: well_formed_def)
  then obtain played where pl: "shapes_played s (curr_player s) = Some played" by blast
  let ?m = "(shapes_played s)(curr_player s \<mapsto> played @ [kind (shape p)])"
  let ?s1 = "s\<lparr>grid := g1, shapes_played := ?m\<rparr>"
  from chk pl have "kind (shape p) \<in> fst ` set (shapes s)"
    by (auto simp: check_piece_def remaining_shapes_def split: if_splits)
  with well_formed_played [OF wf pl]
  have new: "set (played @ [kind (shape p)]) \<subseteq> fst ` set (shapes s)" by simp
  have dom: "dom ?m = dom (shapes_played s)" using pl by auto
  have ran: "set l \<subseteq> fst ` set (shapes s)" if "l \<in> ran ?m" for l
  proof -
    from that obtain q where q: "?m q = Some l" by (auto simp: ran_def)
    show ?thesis
    proof (cases "q = curr_player s")
      case True
      with q new show ?thesis by simp
    next
      case False
      with q have "shapes_played s q = Some l" by simp
      then show ?thesis by (rule well_formed_played [OF wf])
    qed
  qed
  have wf1: "well_formed ?s1"
    using wf g1(2) dom ran by (simp add: well_formed_def grid_ok_def)
  have "cell_at ?s1 pt = Some occ" if "on_board s pt" "cell_at s pt = Some occ" for pt occ
  proof -
    obtain a b where pt: "pt = (a, b)" by (cases pt)
    from that(1) have r: "in_range ?sz (a, b)" by (simp add: pt on_board_in_range)
    have "(a, b) \<notin> set (piece_squares p)"
    proof
      assume "(a, b) \<in> set (piece_squares p)"
      with free(2) have "grid s ! nat a ! nat b = None" by blast
      with that(2) show False by (simp add: pt cell_at_def)
    qed
    with g1(3) r have "g1 ! nat a ! nat b = grid s ! nat a ! nat b" by simp
    with that(2) show ?thesis by (simp add: pt cell_at_def)
  qed
  then have k1: "keeps s ?s1" by (simp add: keeps_def)
  from g1(1) pl wf1 k1 show thesis by (rule that)
qed

lemma maybe_place_keeps:
  assumes wf: "well_formed s"
  shows "well_formed (snd (maybe_place s p))" and "keeps s (snd (maybe_place s p))"
proof -
  have "well_formed (snd (maybe_place s p)) \<and> keeps s (snd (maybe_place s p))"
  proof (cases "curr_player s \<in> retired s")
    case True
    then have "snd (maybe_place s p) = snd (progress_turn s)"
      by (simp add: maybe_place_def Let_def split: prod.splits sum.splits)
    with progress_turn_keeps [OF wf] show ?thesis by simp
  next
    case nr: False
    show ?thesis
    proof (cases "check_piece s (curr_player s) p = Inr () \<and> legal_to_place s p = Inr True")
      case False
      with nr have "snd (maybe_place s p) = s"
        by (auto simp: maybe_place_def Let_def split: sum.splits bool.splits)
      with wf show ?thesis by (simp add: keeps_refl)
    next
      case True
      then have chk: "check_piece s (curr_player s) p = Inr ()"
        and legal: "legal_to_place s p = Inr True" by simp_all
      from placed_state [OF wf legal chk]
      obtain g1 played where st:
        "place_loop (grid s) (Some (curr_player s, kind (shape p))) (piece_squares p)
           = (Inr (), g1)"
        "shapes_played s (curr_player s) = Some played"
        "well_formed (s\<lparr>grid := g1, shapes_played := (shapes_played s)
           (curr_player s \<mapsto> played @ [kind (shape p)])\<rparr>)"
        "keeps s (s\<lparr>grid := g1, shapes_played := (shapes_played s)
           (curr_player s \<mapsto> played @ [kind (shape p)])\<rparr>)"
        by blast
      let ?s1 = "s\<lparr>grid := g1, shapes_played := (shapes_played s)
           (curr_player s \<mapsto> played @ [kind (shape p)])\<rparr>"
      from nr chk legal st(1,2)
      have "snd (maybe_place s p) = snd (progress_turn ?s1)"
        by (simp add: maybe_place_def Let_def split: prod.splits sum.splits)
      with progress_turn_keeps(1,2) [OF st(3)] keeps_trans [OF st(4)]
      show ?thesis by simp
    qed
  qed
  then show "well_formed (snd (maybe_place s p))" and "keeps s (snd (maybe_place s p))"
    by simp_all
qed

lemma do_call_keeps:
  assumes "well_formed s"
  shows "well_formed (do_call s c)" and "keeps s (do_call s c)"
  using assms maybe_place_keeps retire_keeps progress_turn_keeps game_over_keeps winners_keeps
  by (cases c; simp)+

lemma run_keeps:
  assumes "well_formed s"
  shows "well_formed (run s cs) \<and> keeps s (run s cs)"
  using assms
proof (induction cs arbitrary: s)
  case Nil
  then show ?case by (simp add: keeps_refl)
next
  case (Cons c cs)
  from do_call_keeps [OF Cons.prems, of c]
  have wf1: "well_formed (do_call s c)" and k1: "keeps s (do_call s c)" by simp_all
  from Cons.IH [OF wf1] keeps_trans [OF k1] show ?case by simp
qed

lemma init_well_formed:
  assumes "Blokus_init n sz starts catalog_shapes = Inr s" "catalog_shapes \<noteq> []"
  shows "well_formed s"
  using assms
  by (auto simp: Blokus_init_def well_formed_def dom_def ran_def split: if_splits)

lemma reachable_well_formed: "reachable s \<Longrightarrow> well_formed s"
  by (induction rule: reachable.induct) (auto intro: init_well_formed do_call_keeps(1))

section \<open>Facts about the examples\<close>

lemma init_new_game: "Blokus_init 2 5 {(0,0),(4,4)} catalog = Inr new_game"
  by (simp add: Blokus_init_def new_game_def empty_grid_def)


lemma new_game_remaining:
  "remaining_shapes new_game 1 = Inr (map fst catalog)"
  by (simp add: remaining_shapes_def new_game_def catalog_def)

lemma new_game_free:
  "any_collisions new_game (one_at (0,0)) = Inr False"
  "any_collisions new_game (one_at (2,2)) = Inr False"
  by (simp_all add: any_collisions_def any_wall_collisions_def check_piece_def
      remaining_shapes_def new_game_def one_at_def catalog_def empty_grid_def
      grid_get_def py_index_def eval_nat_numeral)

lemma after_openings_wf: "well_formed after_openings"
  by (auto simp: well_formed_def after_openings_def catalog_def ran_def split: if_splits)

lemma after_openings_remaining:
  "remaining_shapes after_openings 1 = Inr (tl (map fst catalog))"
  by (simp add: remaining_shapes_def after_openings_def catalog_def)

lemma after_openings_free:
  "any_collisions after_openings (two_at (1,1)) = Inr False"
  "any_collisions after_openings (two_at (0,1)) = Inr False"
  "any_collisions after_openings (two_at (2,2)) = Inr False"
  "any_collisions after_openings (two_at (3,2)) = Inr False"
  "any_collisions after_openings (two_at (0,3)) = Inr False"
  by (simp_all add: any_collisions_def any_wall_collisions_def check_piece_def
      remaining_shapes_def after_openings_def two_at_def catalog_def
      grid_get_def py_index_def eval_nat_numeral)

lemma new_game_wf: "well_formed new_game"
  by (auto simp: well_formed_def new_game_def empty_grid_def catalog_def ran_def dom_def
      split: if_splits)

lemma one_retired_wf: "well_formed one_retired"
  using new_game_wf by (simp add: one_retired_def well_formed_def)

lemma both_retired_wf: "well_formed both_retired"
  by (auto simp: well_formed_def both_retired_def empty_grid_def catalog_def ran_def dom_def
      split: if_splits)

lemma catalog_cells: "\<forall>(k, shp) \<in> set catalog. squares shp \<noteq> []"
  by (simp add: catalog_def)

lemma stopped_game_wf: "well_formed stopped_game"
  by (auto simp: well_formed_def stopped_game_def catalog_def ran_def dom_def
      split: if_splits)

lemma all_played_wf: "well_formed all_played"
  by (auto simp: well_formed_def all_played_def empty_grid_def catalog_def ran_def dom_def
      split: if_splits)

lemma two_players: "{1 .. 2 :: int} = {1, 2}"
  by auto

lemma stopped_game_scores:
  "score_value stopped_game 1 = - 86" "score_value stopped_game 2 = - 88"
  by (simp_all add: score_value_def get_score_def remaining_shapes_def stopped_game_def
      catalog_def)

lemma first_move:
  "maybe_place new_game (one_at (0,0)) = (Inr True, first_placed)"
  by (simp add: maybe_place_def new_game_def one_at_def check_piece_def remaining_shapes_def
      catalog_def legal_to_place_def any_collisions_def any_wall_collisions_def
      empty_grid_def grid_get_def py_index_def grid_set_def progress_turn_def
      next_player_def progress_loop.simps turn_blocked_def first_placed_def
      eval_nat_numeral)

section \<open>Legality of a placement\<close>

text \<open>
  C1. In a well-formed state whose current player has played before, for an anchored
  piece of a kind the current player still holds and with \<open>any_collisions\<close> false,
  \<open>legal_to_place\<close> returns true exactly when no cardinal neighbour \<open>(x, y)\<close> of the
  piece has, at row \<open>min (size - 1) (max 0 x)\<close> and column \<open>min (size - 1) (max 0 y)\<close>
  of the grid, an occupant whose player id is the current player, and some
  intercardinal neighbour has one there.
\<close>

theorem legal_to_place_later:
  assumes wf: "well_formed s"
    and played: "shapes_played s (curr_player s) = Some played" "played \<noteq> []"
    and piece: "anchor p \<noteq> None" "remaining_shapes s (curr_player s) = Inr rs"
      "kind (shape p) \<in> set rs"
    and free: "any_collisions s p = Inr False"
  shows "legal_to_place s p
         = Inr ((\<forall>(x, y) \<in> set (cardinal_neighbors p).
                   \<not> (\<exists>k. grid s ! nat (min (size_board s - 1) (max 0 x))
                                 ! nat (min (size_board s - 1) (max 0 y))
                            = Some (curr_player s, k)))
              \<and> (\<exists>(x, y) \<in> set (intercardinal_neighbors p).
                   \<exists>k. grid s ! nat (min (size_board s - 1) (max 0 x))
                              ! nat (min (size_board s - 1) (max 0 y))
                         = Some (curr_player s, k)))"
proof -
  have own_iff: "own (curr_player s) (cell_at s (clamp_point s pt))
      \<longleftrightarrow> (\<exists>k. grid s ! nat (min (size_board s - 1) (max 0 (fst pt)))
                        ! nat (min (size_board s - 1) (max 0 (snd pt)))
                   = Some (curr_player s, k))" for pt
    by (cases "cell_at s (clamp_point s pt)")
      (auto simp: own_def cell_at_def clamp_point_def clamp_def)
  have "legal_to_place s p
         = Inr ((\<forall>pt \<in> set (cardinal_neighbors p).
                   \<not> own (curr_player s) (cell_at s (clamp_point s pt)))
              \<and> (\<exists>pt \<in> set (intercardinal_neighbors p).
                   own (curr_player s) (cell_at s (clamp_point s pt))))"
    using played free
    by (auto simp: legal_to_place_def check_piece_ok [OF piece]
        edges_loop_eq [OF wf] corners_loop_eq [OF wf] split: bool.splits)
  then show ?thesis
    unfolding own_iff case_prod_unfold .
qed

text \<open>
  In \<open>after_openings\<close> player 1 is to move and holds \<open>(0,0)\<close>, player 2 holds \<open>(4,4)\<close>.
  The 2-square shape is legal at \<open>(1,1)\<close> (own cell on a corner); illegal at \<open>(0,1)\<close>
  (own cell on an edge), at \<open>(2,2)\<close> (no cell on a corner), at \<open>(3,2)\<close> (the cell on the
  corner \<open>(4,4)\<close> is the other player's) and at \<open>(0,3)\<close>, where the neighbours in row
  \<open>-1\<close> and in column 5 are read at row 0 and column 4.
\<close>

theorem legal_to_place_later_witness:
  "legal_to_place after_openings (two_at (1,1)) = Inr True
   \<and> legal_to_place after_openings (two_at (0,1)) = Inr False
   \<and> legal_to_place after_openings (two_at (2,2)) = Inr False
   \<and> legal_to_place after_openings (two_at (3,2)) = Inr False
   \<and> legal_to_place after_openings (two_at (0,3)) = Inr False"
proof -
  have played: "shapes_played after_openings (curr_player after_openings) = Some [ONE]"
    "[ONE] \<noteq> []"
    by (simp_all add: after_openings_def)
  have rs: "remaining_shapes after_openings (curr_player after_openings)
            = Inr (tl (map fst catalog))"
    using after_openings_remaining by (simp add: after_openings_def)
  have k: "kind (shape (two_at a)) \<in> set (tl (map fst catalog))" for a
    by (simp add: two_at_def catalog_def)
  have a: "anchor (two_at a) \<noteq> None" for a
    by (simp add: two_at_def)
  note th = legal_to_place_later [OF after_openings_wf played a rs k]
  have "legal_to_place after_openings (two_at (1,1)) = Inr True"
    using th [OF after_openings_free(1)]
    by (simp add: two_at_def after_openings_def)
  moreover have "legal_to_place after_openings (two_at (0,1)) = Inr False"
    using th [OF after_openings_free(2)]
    by (simp add: two_at_def after_openings_def)
  moreover have "legal_to_place after_openings (two_at (2,2)) = Inr False"
    using th [OF after_openings_free(3)]
    by (simp add: two_at_def after_openings_def)
  moreover have "legal_to_place after_openings (two_at (3,2)) = Inr False"
    using th [OF after_openings_free(4)]
    by (simp add: two_at_def after_openings_def)
  moreover have "legal_to_place after_openings (two_at (0,3)) = Inr False"
    using th [OF after_openings_free(5)]
    by (simp add: two_at_def after_openings_def)
  ultimately show ?thesis by simp
qed

text \<open>
  C2. When the played-list of the current player is empty, for an anchored piece of a
  kind the current player still holds and with \<open>any_collisions\<close> false,
  \<open>legal_to_place\<close> returns true exactly when one of the squares of the piece is one
  of the start positions of the game.
\<close>

theorem legal_to_place_first:
  assumes played: "shapes_played s (curr_player s) = Some []"
    and piece: "anchor p \<noteq> None" "remaining_shapes s (curr_player s) = Inr rs"
      "kind (shape p) \<in> set rs"
    and free: "any_collisions s p = Inr False"
  shows "legal_to_place s p
         = Inr (\<exists>sq \<in> set (piece_squares p). sq \<in> start_positions s)"
  using played free
  by (auto simp: legal_to_place_def check_piece_ok [OF piece] start_loop_eq)

theorem legal_to_place_first_witness:
  "legal_to_place new_game (one_at (0,0)) = Inr True
   \<and> legal_to_place new_game (one_at (2,2)) = Inr False"
proof -
  have played: "shapes_played new_game (curr_player new_game) = Some []"
    by (simp add: new_game_def)
  have rs: "remaining_shapes new_game (curr_player new_game) = Inr (map fst catalog)"
    using new_game_remaining by (simp add: new_game_def)
  have k: "kind (shape (one_at a)) \<in> set (map fst catalog)" for a
    by (simp add: one_at_def catalog_def)
  have a: "anchor (one_at a) \<noteq> None" for a by (simp add: one_at_def)
  have f1: "any_collisions new_game (one_at (0,0)) = Inr False"
    and f2: "any_collisions new_game (one_at (2,2)) = Inr False"
    by (rule new_game_free)+
  from legal_to_place_first [OF played a rs k f1] legal_to_place_first [OF played a rs k f2]
  show ?thesis by (simp add: one_at_def new_game_def)
qed

section \<open>An illegal placement changes nothing\<close>

text \<open>
  C4. When the current player is not retired and the piece is anchored and of a kind
  the current player still holds, a placement that \<open>legal_to_place\<close> rejects makes
  \<open>maybe_place\<close> return false, without an exception and with the whole state (grid,
  played-lists, retired set and cursor) as it was.
\<close>

theorem maybe_place_illegal:
  assumes "curr_player s \<notin> retired s"
    and piece: "anchor p \<noteq> None" "remaining_shapes s (curr_player s) = Inr rs"
      "kind (shape p) \<in> set rs"
    and "legal_to_place s p = Inr False"
  shows "maybe_place s p = (Inr False, s)"
  using assms(1,5) by (simp add: maybe_place_def check_piece_ok [OF piece])

theorem maybe_place_illegal_witness:
  "maybe_place new_game (one_at (2,2)) = (Inr False, new_game)"
proof -
  have nr: "curr_player new_game \<notin> retired new_game" by (simp add: new_game_def)
  have rs: "remaining_shapes new_game (curr_player new_game) = Inr (map fst catalog)"
    using new_game_remaining by (simp add: new_game_def)
  have k: "kind (shape (one_at (2,2))) \<in> set (map fst catalog)"
    by (simp add: one_at_def catalog_def)
  have a: "anchor (one_at (2,2)) \<noteq> None" by (simp add: one_at_def)
  have il: "legal_to_place new_game (one_at (2,2)) = Inr False"
    by (simp add: legal_to_place_def new_game_free check_piece_ok [OF a rs k])
      (simp add: new_game_def one_at_def)
  from maybe_place_illegal [OF nr a rs k il] show ?thesis .
qed

section \<open>Occupied cells are never rewritten\<close>

text \<open>
  C5. From a reachable state, whatever calls of \<open>maybe_place\<close>, \<open>retire\<close> and
  \<open>progress_turn\<close> (and evaluations of \<open>game_over\<close> and \<open>winners\<close>) follow, returning
  or raising, a cell of the board that holds an occupant holds the same occupant
  afterwards: a placement writes only where \<open>any_collisions\<close> found every square
  empty, and nothing else writes to the grid.
\<close>

theorem occupied_cells_stay:
  assumes "reachable s" and "on_board s pt" and "cell_at s pt = Some occ"
  shows "cell_at (run s calls) pt = Some occ"
proof -
  from assms(1) have "well_formed s" by (rule reachable_well_formed)
  then have "keeps s (run s calls)" using run_keeps by blast
  with assms(2,3) show ?thesis unfolding keeps_def by blast
qed


theorem occupied_cells_stay_witness:
  "cell_at (run first_placed [Maybe_place (one_at (0,0)), Retire, Progress_turn]) (0,0)
   = Some (1, ONE)"
proof -
  have "catalog \<noteq> []" by (simp add: catalog_def)
  with init_new_game have "reachable new_game" by (rule reachable.init)
  then have "reachable (do_call new_game (Maybe_place (one_at (0,0))))"
    by (rule reachable.step)
  then have r: "reachable first_placed" by (simp add: first_move)
  have b: "on_board first_placed (0,0)" by (simp add: on_board_def first_placed_def)
  have c: "cell_at first_placed (0,0) = Some (1, ONE)"
    by (simp add: cell_at_def first_placed_def)
  from occupied_cells_stay [OF r b c] show ?thesis .
qed

section \<open>The retired player's turn\<close>

text \<open>
  C10. In a well-formed state whose current player is retired, \<open>maybe_place\<close> returns
  true for every piece whatsoever (anchored or not, of a kind the player holds or not)
  and raises nothing; the state it leaves is the one \<open>progress_turn\<close> leaves, which
  differs from the state before in the cursor only.
\<close>

theorem maybe_place_retired:
  assumes "well_formed s" and "curr_player s \<in> retired s"
  shows "\<exists>c. maybe_place s p = (Inr True, s\<lparr>curr_player := c\<rparr>)
           \<and> progress_turn s = (Inr (), s\<lparr>curr_player := c\<rparr>)"
proof -
  from progress_turn_eq [OF assms(1)]
  obtain c where pt: "progress_turn s = (Inr (), s\<lparr>curr_player := c\<rparr>)" by blast
  with assms(2) have "maybe_place s p = (Inr True, s\<lparr>curr_player := c\<rparr>)"
    by (simp add: maybe_place_def Let_def)
  with pt show ?thesis by blast
qed

theorem maybe_place_retired_witness:
  "maybe_place both_retired loose_piece = (Inr True, both_retired\<lparr>curr_player := 2\<rparr>)"
proof -
  have r: "curr_player both_retired \<in> retired both_retired" by (simp add: both_retired_def)
  from maybe_place_retired [OF both_retired_wf r, of loose_piece]
  obtain c where mp: "maybe_place both_retired loose_piece
       = (Inr True, both_retired\<lparr>curr_player := c\<rparr>)"
    and pt: "progress_turn both_retired = (Inr (), both_retired\<lparr>curr_player := c\<rparr>)"
    by blast
  have "progress_turn both_retired = (Inr (), both_retired\<lparr>curr_player := 2\<rparr>)"
    by (simp add: progress_turn_def next_player_def progress_loop.simps turn_blocked_def
        not_game_over_def game_over_def upto.simps both_retired_def)
  with pt have "both_retired\<lparr>curr_player := c\<rparr> = both_retired\<lparr>curr_player := 2\<rparr>"
    by simp
  with mp show ?thesis by simp
qed

section \<open>Turn progression ends on the next playable player\<close>

text \<open>
  C8. In a well-formed state (so with one to four players) \<open>progress_turn\<close> returns
  normally and changes the cursor only. If the game is not over afterwards, the new
  current player is neither retired nor out of shapes and is reached from the old one
  by at most \<open>num_players\<close> steps \<open>c \<mapsto> c mod num_players + 1\<close>, every player
  passed on the way being retired or out of shapes. With two players, the cursor on
  player 1, player 1 retired and player 2 holding shapes, the cursor ends on 2. That
  the call terminates is the totality of \<open>progress_loop\<close>, proved with its definition.
\<close>

theorem progress_turn_finds_next:
  assumes wf: "well_formed s"
  shows "\<exists>c. progress_turn s = (Inr (), s\<lparr>curr_player := c\<rparr>) \<and>
     (fst (game_over (s\<lparr>curr_player := c\<rparr>)) = Inr False \<longrightarrow>
        c \<notin> retired s \<and> (\<exists>rs. remaining_shapes s c = Inr rs \<and> rs \<noteq> []) \<and>
        (\<exists>k < nat (num_players s). c = (advance s ^^ Suc k) (curr_player s) \<and>
           (\<forall>j < k. (advance s ^^ Suc j) (curr_player s) \<in> retired s
                  \<or> remaining_shapes s ((advance s ^^ Suc j) (curr_player s)) = Inr []))) \<and>
     (num_players s = 2 \<and> curr_player s = 1 \<and> 1 \<in> retired s
        \<and> (\<exists>rs. remaining_shapes s 2 = Inr rs \<and> rs \<noteq> []) \<longrightarrow> c = 2)"
proof -
  let ?n = "num_players s"
  let ?P = "\<lambda>k. playable s ((advance s ^^ Suc k) (curr_player s))"
  let ?k = "LEAST k. ?P k"
  from wf have n: "1 \<le> ?n" by (simp add: well_formed_def)
  define c where "c = (if \<exists>p \<in> {1 .. ?n}. playable s p
     then (advance s ^^ Suc ?k) (curr_player s) else ?n)"
  have pt: "progress_turn s = (Inr (), s\<lparr>curr_player := c\<rparr>)"
    unfolding c_def by (rule progress_turn_eq [OF wf])
  have crange: "1 \<le> c" "c \<le> ?n"
    using n advance_Suc_range [OF n] by (auto simp: c_def)
  have wfc: "well_formed (s\<lparr>curr_player := c\<rparr>)"
    using wf crange by (rule well_formed_cursor)
  have live: "c \<notin> retired s \<and> (\<exists>rs. remaining_shapes s c = Inr rs \<and> rs \<noteq> []) \<and>
        (\<exists>k < nat ?n. c = (advance s ^^ Suc k) (curr_player s) \<and>
           (\<forall>j < k. (advance s ^^ Suc j) (curr_player s) \<in> retired s
                  \<or> remaining_shapes s ((advance s ^^ Suc j) (curr_player s)) = Inr []))"
    if "fst (game_over (s\<lparr>curr_player := c\<rparr>)) = Inr False"
  proof -
    from that have ex: "\<exists>p \<in> {1 .. ?n}. playable s p"
      by (simp add: game_over_eq [OF wfc] split: if_splits)
    then obtain p where p: "1 \<le> p" "p \<le> ?n" "playable s p" by auto
    from advance_reaches_soon [OF p(1,2), of "curr_player s"]
    obtain k0 where k0: "k0 < nat ?n" "(advance s ^^ Suc k0) (curr_player s) = p" by blast
    with p(3) have Pk0: "?P k0" by simp
    then have Pk: "?P ?k" by (rule LeastI)
    have kle: "?k \<le> k0" using Pk0 by (rule Least_le)
    have ceq: "c = (advance s ^^ Suc ?k) (curr_player s)" using ex by (simp add: c_def)
    have skipped: "(advance s ^^ Suc j) (curr_player s) \<in> retired s
        \<or> remaining_shapes s ((advance s ^^ Suc j) (curr_player s)) = Inr []"
      if "j < ?k" for j
    proof -
      from that have "\<not> ?P j" by (rule not_less_Least)
      with not_playable_known [OF wf advance_Suc_range [OF n]] show ?thesis by blast
    qed
    from Pk ceq have "playable s c" by simp
    then have "c \<notin> retired s" "\<exists>rs. remaining_shapes s c = Inr rs \<and> rs \<noteq> []"
      by (auto simp: playable_def split: sum.splits)
    moreover from kle k0(1) have "?k < nat ?n" by simp
    ultimately show ?thesis using ceq skipped by blast
  qed
  have two: "c = 2"
    if h: "?n = 2 \<and> curr_player s = 1 \<and> 1 \<in> retired s
        \<and> (\<exists>rs. remaining_shapes s 2 = Inr rs \<and> rs \<noteq> [])"
  proof (cases "\<exists>p \<in> {1 .. ?n}. playable s p")
    case False
    with h show ?thesis by (simp add: c_def)
  next
    case True
    then obtain p where p: "1 \<le> p" "p \<le> 2" "playable s p" using h by auto
    from h have "\<not> playable s 1" by (simp add: playable_def)
    with p have "p = 2" by (cases "p = 1") auto
    have a1: "advance s 1 = 2" using h by (simp add: advance_def)
    with p(3) \<open>p = 2\<close> h have "?P 0" by simp
    then have "?k = 0" by simp
    with True h a1 show ?thesis by (simp add: c_def)
  qed
  from pt live two show ?thesis by blast
qed

theorem progress_turn_finds_next_witness:
  "progress_turn one_retired = (Inr (), one_retired\<lparr>curr_player := 2\<rparr>)"
proof -
  from progress_turn_finds_next [OF one_retired_wf]
  obtain c where pt: "progress_turn one_retired = (Inr (), one_retired\<lparr>curr_player := c\<rparr>)"
    and two: "num_players one_retired = 2 \<and> curr_player one_retired = 1
        \<and> 1 \<in> retired one_retired
        \<and> (\<exists>rs. remaining_shapes one_retired 2 = Inr rs \<and> rs \<noteq> []) \<longrightarrow> c = 2"
    by blast
  have "remaining_shapes one_retired 2 = Inr (map fst catalog)"
    by (simp add: remaining_shapes_def one_retired_def new_game_def catalog_def)
  moreover have "map fst catalog \<noteq> []" by (simp add: catalog_def)
  ultimately have "c = 2" using two by (simp add: one_retired_def new_game_def)
  with pt show ?thesis by simp
qed

section \<open>Scores\<close>

text \<open>
  C6. In a well-formed state, for a player of the game and a catalog whose shapes all
  have at least one square: while the player holds a shape, \<open>get_score\<close> is minus the
  sum of the square counts of the shapes held, a negative number; once the player
  holds none, it is 20 when the kind played last has one square and 15 otherwise.
\<close>

theorem get_score_cases:
  assumes wf: "well_formed s" and player: "1 \<le> player" "player \<le> num_players s"
    and cells: "\<forall>(k, shp) \<in> set (shapes s). squares shp \<noteq> []"
  shows "\<exists>rs played. remaining_shapes s player = Inr rs \<and> shapes_played s player = Some played \<and>
     (rs \<noteq> [] \<longrightarrow>
        get_score s player = Inr (- (\<Sum>k\<leftarrow>rs. square_count s k))
        \<and> - (\<Sum>k\<leftarrow>rs. square_count s k) < 0) \<and>
     (rs = [] \<longrightarrow> played \<noteq> [] \<and>
        get_score s player = Inr (if square_count s (last played) = 1 then 20 else 15))"
proof -
  from well_formed_known [OF wf player]
  obtain played where pl: "shapes_played s player = Some played" by blast
  define rs where "rs = filter (\<lambda>k. k \<notin> set played) (map fst (shapes s))"
  have rem: "remaining_shapes s player = Inr rs"
    unfolding rs_def by (rule remaining_shapes_eq [OF pl])
  have sub: "set rs \<subseteq> fst ` set (shapes s)" by (auto simp: rs_def)
  have pos: "0 < square_count s k" if "k \<in> set rs" for k
  proof -
    from that sub have "k \<in> fst ` set (shapes s)" by blast
    then obtain shp where shp: "map_of (shapes s) k = Some shp"
      by (metis map_of_eq_None_iff not_Some_eq)
    then have "(k, shp) \<in> set (shapes s)" by (rule map_of_SomeD)
    with cells have "squares shp \<noteq> []" by blast
    with shp show ?thesis by (simp add: square_count_def)
  qed
  have sum_pos: "0 < (\<Sum>k\<leftarrow>xs. square_count s k)" if "xs \<noteq> []" "set xs \<subseteq> set rs" for xs
    using that
  proof (induction xs)
    case Nil
    then show ?case by simp
  next
    case (Cons x xs)
    from Cons.prems pos have x: "0 < square_count s x" by simp
    show ?case
    proof (cases "xs = []")
      case True
      with x show ?thesis by simp
    next
      case False
      with Cons have "0 < (\<Sum>k\<leftarrow>xs. square_count s k)" by simp
      with x show ?thesis by simp
    qed
  qed
  have some: "get_score s player = Inr (- (\<Sum>k\<leftarrow>rs. square_count s k))
        \<and> - (\<Sum>k\<leftarrow>rs. square_count s k) < 0" if "rs \<noteq> []"
    using that sum_pos [of rs] by (simp add: get_score_def rem score_loop_eq [OF sub])
  have none: "played \<noteq> [] \<and>
        get_score s player = Inr (if square_count s (last played) = 1 then 20 else 15)"
    if "rs = []"
  proof -
    from that rem have r0: "remaining_shapes s player = Inr []" by simp
    from exhausted_last_played [OF wf pl r0]
    obtain shp where ne: "played \<noteq> []" and shp: "map_of (shapes s) (last played) = Some shp"
      by blast
    then show ?thesis by (simp add: get_score_def r0 pl square_count_def)
  qed
  from rem pl some none show ?thesis by blast
qed


theorem get_score_cases_witness:
  "get_score stopped_game 1 = Inr (- 86) \<and> get_score all_played 1 = Inr 20
   \<and> get_score all_played 2 = Inr 15"
proof -
  have c1: "\<forall>(k, shp) \<in> set (shapes stopped_game). squares shp \<noteq> []"
    using catalog_cells by (simp add: stopped_game_def)
  have c2: "\<forall>(k, shp) \<in> set (shapes all_played). squares shp \<noteq> []"
    using catalog_cells by (simp add: all_played_def)
  have r1: "remaining_shapes stopped_game 1 = Inr (drop 2 (map fst catalog))"
    by (simp add: remaining_shapes_def stopped_game_def catalog_def)
  have "drop 2 (map fst catalog) \<noteq> []" by (simp add: catalog_def)
  with get_score_cases [OF stopped_game_wf _ _ c1, of 1] r1
  have "get_score stopped_game 1
        = Inr (- (\<Sum>k\<leftarrow>drop 2 (map fst catalog). square_count stopped_game k))"
    by (auto simp: stopped_game_def)
  moreover have "(\<Sum>k\<leftarrow>drop 2 (map fst catalog). square_count stopped_game k) = 86"
    by (simp add: square_count_def stopped_game_def catalog_def)
  ultimately have a: "get_score stopped_game 1 = Inr (- 86)" by simp
  have r2: "remaining_shapes all_played 1 = Inr []" "remaining_shapes all_played 2 = Inr []"
    by (simp_all add: remaining_shapes_def all_played_def catalog_def)
  have p2: "shapes_played all_played 1 = Some (rev (map fst catalog))"
    "shapes_played all_played 2 = Some (map fst catalog)"
    by (simp_all add: all_played_def)
  from get_score_cases [OF all_played_wf _ _ c2, of 1] r2(1) p2(1)
  have "get_score all_played 1
        = Inr (if square_count all_played (last (rev (map fst catalog))) = 1 then 20 else 15)"
    by (auto simp: all_played_def)
  then have b: "get_score all_played 1 = Inr 20"
    by (simp add: square_count_def all_played_def catalog_def)
  from get_score_cases [OF all_played_wf _ _ c2, of 2] r2(2) p2(2)
  have "get_score all_played 2
        = Inr (if square_count all_played (last (map fst catalog)) = 1 then 20 else 15)"
    by (auto simp: all_played_def)
  then have c: "get_score all_played 2 = Inr 15"
    by (simp add: square_count_def all_played_def catalog_def)
  from a b c show ?thesis by simp
qed

text \<open>
  C7. In a well-formed state \<open>game_over\<close> returns true or false, and \<open>winners\<close> is
  \<open>None\<close> exactly when it returns false. When it returns true, every player has a
  score and \<open>winners\<close> is the list, in ascending order and not empty, of the players
  whose score is the maximum of the scores of players \<open>1 .. num_players\<close>.
\<close>

theorem winners_top_scores:
  assumes wf: "well_formed s"
  shows "(\<exists>b. fst (game_over s) = Inr b) \<and>
     (fst (winners s) = Inr None \<longleftrightarrow> fst (game_over s) = Inr False) \<and>
     (fst (game_over s) = Inr True \<longrightarrow>
        (\<forall>p \<in> {1 .. num_players s}. get_score s p = Inr (score_value s p)) \<and>
        (\<exists>ws. fst (winners s) = Inr (Some ws) \<and> ws \<noteq> [] \<and>
           ws = filter (\<lambda>p. score_value s p = Max (score_value s ` {1 .. num_players s}))
                  [1 .. num_players s]))"
proof -
  let ?n = "num_players s"
  let ?M = "Max (score_value s ` {1 .. ?n})"
  from wf have n: "1 \<le> ?n" by (simp add: well_formed_def)
  have "finite (score_value s ` {1 .. ?n})" "score_value s ` {1 .. ?n} \<noteq> {}"
    using n by simp_all
  then have "?M \<in> score_value s ` {1 .. ?n}" by (rule Max_in)
  then obtain p where "p \<in> {1 .. ?n}" "score_value s p = ?M" by auto
  then have ne: "filter (\<lambda>p. score_value s p = ?M) [1 .. ?n] \<noteq> []"
    by (auto simp: filter_empty_conv)
  have sc: "\<forall>p \<in> {1 .. ?n}. get_score s p = Inr (score_value s p)"
    using get_score_returns [OF wf] by simp
  show ?thesis
    using ne sc by (auto simp: winners_eq [OF wf] game_over_eq [OF wf])
qed


theorem winners_top_scores_witness:
  "fst (winners stopped_game) = Inr (Some [1]) \<and> fst (winners new_game) = Inr None"
proof -
  have over: "fst (game_over stopped_game) = Inr True"
    by (simp add: game_over_def stopped_game_def upto.simps)
  have n: "num_players stopped_game = 2" by (simp add: stopped_game_def)
  from winners_top_scores [OF stopped_game_wf] over
  have "fst (winners stopped_game)
        = Inr (Some (filter (\<lambda>p. score_value stopped_game p
                 = Max (score_value stopped_game ` {1 .. num_players stopped_game}))
               [1 .. num_players stopped_game]))"
    by auto
  then have a: "fst (winners stopped_game) = Inr (Some [1])"
    by (simp add: n two_players stopped_game_scores upto.simps)
  have "fst (game_over new_game) = Inr False"
    by (simp add: game_over_def new_game_def upto.simps remaining_shapes_def catalog_def)
  with winners_top_scores [OF new_game_wf]
  have b: "fst (winners new_game) = Inr None" by simp
  from a b show ?thesis by simp
qed

section \<open>The cursor after \<open>game_over\<close>\<close>

text \<open>
  C3. Evaluating \<open>game_over\<close> should leave the whole state as it was. In the state
  \<open>both_retired\<close> the scan visits players 1 and 2, finds both retired and returns
  \<open>True\<close> without writing the saved cursor back: the cursor was 1 and is 2 afterwards.
\<close>

theorem game_over_moves_cursor:
  "game_over both_retired = (Inr True, both_retired\<lparr>curr_player := 2\<rparr>)
   \<and> curr_player both_retired = 1
   \<and> snd (game_over both_retired) \<noteq> both_retired"
  by (simp add: game_over_def both_retired_def upto.simps)

section \<open>The round trip through text\<close>

text \<open>
  C9. \<open>string_to_grid (grid_to_string grid)\<close> should give back the occupancy and the
  player ids of \<open>grid\<close>, every occupied cell carrying the 1-square kind. On the grid of
  the file's own \<open>test_grid_3\<close> it raises \<open>AttributeError\<close> instead: the member of the
  enum is \<open>ONE\<close>, and \<open>string_to_grid\<close> asks for \<open>One\<close> at the first occupied cell. A
  grid without occupants makes the round trip.
\<close>

theorem string_to_grid_raises:
  "string_to_grid (grid_to_string test_grid_3) = Inl AttributeError
   \<and> ShapeKind_member ''One'' = Inl AttributeError
   \<and> ShapeKind_member ''ONE'' = Inr ONE
   \<and> string_to_grid (grid_to_string (empty_grid 4)) = Inr (empty_grid 4)"
  by (intro conjI; code_simp)

end
